theory Spec2Isabelle
  imports Complex_Main "HOL-Library.Multiset"
begin

section \<open>Python exceptions\<close>

text \<open>
  The exceptions the modelled code can raise. A function that may raise returns
  \<open>error + 'a\<close>, with \<open>Inl\<close> for the exception. The state reached when an exception
  escapes is not modelled.
\<close>

datatype error = AssertionError | TypeError | ValueError | IndexError | AttributeError

definition ebind :: "error + 'a \<Rightarrow> ('a \<Rightarrow> error + 'b) \<Rightarrow> error + 'b" where
  "ebind m f = (case m of Inl e \<Rightarrow> Inl e | Inr x \<Rightarrow> f x)"

section \<open>DynamicArray (fealpy/common/DynamicArray.py)\<close>

text \<open>
  The attributes of a \<open>DynamicArray\<close>. \<open>data\<close> is the backing ndarray, one list element
  per index along axis 0 (a row when the array has trailing dimensions); \<open>shape\<close>,
  \<open>size\<close> and \<open>capacity\<close> are the attributes of the same names (\<open>size\<close> is a constant of
  HOL, hence \<open>size_d\<close>). Sizes and counts are natural numbers. The nested class
  \<open>__metaclass__\<close> is an ordinary attribute in Python 3 and installs nothing, so
  \<open>__len__\<close> is the method defined at the end of the class.
\<close>

record 'a DynamicArray =
  shape :: "nat list"
  size_d :: nat
  capacity :: nat
  data :: "'a list"

text \<open>The four argument kinds \<open>__init__\<close> dispatches on.\<close>

datatype 'a init_data =
    InitInt nat
  | InitTuple "nat list"
  | InitList "'a list" "nat option"
  | InitArray "nat list" "'a list"

text \<open>
  \<open>np.empty\<close> leaves the memory uninitialised; \<open>junk\<close> stands for what it holds.
  \<open>data[:size] = values\<close> overwrites the leading \<open>size\<close> rows.
\<close>

definition np_empty :: "nat \<Rightarrow> 'a \<Rightarrow> 'a list" where
  "np_empty n junk = replicate n junk"

definition set_prefix :: "'a list \<Rightarrow> 'a list \<Rightarrow> 'a list" where
  "set_prefix xs vs = vs @ drop (length vs) xs"

definition mk_array :: "nat list \<Rightarrow> nat \<Rightarrow> nat \<Rightarrow> 'a \<Rightarrow> 'a DynamicArray" where
  "mk_array sh sz cap junk =
     \<lparr>shape = sh, size_d = sz, capacity = max sz cap, data = np_empty (max sz cap) junk\<rparr>"

fun init :: "'a init_data \<Rightarrow> nat \<Rightarrow> 'a \<Rightarrow> error + 'a DynamicArray" where
  "init (InitInt n) cap junk = Inr (mk_array [n] n cap junk)"
| "init (InitTuple sh) cap junk =
     (case sh of [] \<Rightarrow> Inl IndexError | n # _ \<Rightarrow> Inr (mk_array sh n cap junk))"
| "init (InitList xs rowlen) cap junk =
     (if xs = [] then Inl IndexError
      else let sh = (case rowlen of Some k \<Rightarrow> [length xs, k] | None \<Rightarrow> [length xs]);
               a = mk_array sh (length xs) cap junk
           in Inr (a\<lparr>data := set_prefix (data a) xs\<rparr>))"
| "init (InitArray sh xs) cap junk =
     (case sh of [] \<Rightarrow> Inl IndexError
      | n # _ \<Rightarrow>
          if length xs \<noteq> n then Inl ValueError
          else let a = mk_array sh n cap junk
               in Inr (a\<lparr>data := set_prefix (data a) xs\<rparr>))"

text \<open>
  \<open>np.resize(a, new_shape)\<close>: the new array is filled with repeated copies of \<open>a\<close>, and
  with zeros when \<open>a\<close> is empty.
\<close>

definition np_resize :: "'a::zero list \<Rightarrow> nat \<Rightarrow> 'a list" where
  "np_resize xs n =
     (if xs = [] then replicate n 0 else map (\<lambda>i. xs ! (i mod length xs)) [0..<n])"

definition resize :: "nat \<Rightarrow> 'a::zero DynamicArray \<Rightarrow> 'a DynamicArray" where
  "resize new_size a = a\<lparr>data := np_resize (data a) new_size, capacity := new_size\<rparr>"

text \<open>
  A view \<open>data[lo:hi]\<close> is the index range it covers in the backing array, after the
  clipping Python applies to slice bounds: \<open>view_start\<close> inclusive, \<open>view_stop\<close> exclusive.
\<close>

record view =
  view_start :: nat
  view_stop :: nat

definition slice_view :: "'a list \<Rightarrow> nat \<Rightarrow> nat \<Rightarrow> view" where
  "slice_view xs lo hi =
     \<lparr>view_start = min lo (length xs), view_stop = max (min lo (length xs)) (min hi (length xs))\<rparr>"

definition increase_size :: "nat \<Rightarrow> 'a::zero DynamicArray \<Rightarrow> view \<times> 'a DynamicArray" where
  "increase_size s a =
     (let required_size = size_d a + s;
          a1 = (if required_size \<ge> capacity a
                then resize (max (2 * capacity a) required_size) a else a)
      in (slice_view (data a1) (size_d a) required_size, a1\<lparr>size_d := required_size\<rparr>))"










text \<open>What \<open>__init__\<close> establishes, and \<open>increase_size\<close> and \<open>extend\<close> keep: the backing
  array has \<open>capacity\<close> rows and the live part fits.\<close>

definition wf_array :: "'a DynamicArray \<Rightarrow> bool" where
  "wf_array a \<longleftrightarrow> length (data a) = capacity a \<and> size_d a \<le> capacity a"

section \<open>numpy indexing and assignment\<close>

text \<open>
  An ndarray is the list of its entries along axis 0. An integer array is a list of
  (unbounded) integers, a floating-point array a list of reals: the arithmetic of the
  coordinates is exact in this model.
\<close>

text \<open>Integer indexing: an index below zero counts from the end, one outside raises.\<close>

definition np_index :: "nat \<Rightarrow> int \<Rightarrow> error + nat" where
  "np_index n i =
     (if 0 \<le> i \<and> i < int n then Inr (nat i)
      else if - int n \<le> i \<and> i < 0 then Inr (nat (i + int n))
      else Inl IndexError)"

fun np_indices :: "nat \<Rightarrow> int list \<Rightarrow> error + nat list" where
  "np_indices n [] = Inr []"
| "np_indices n (i # js) =
     ebind (np_index n i) (\<lambda>k. ebind (np_indices n js) (\<lambda>ks. Inr (k # ks)))"

text \<open>\<open>a[idx]\<close> for an integer array \<open>idx\<close>.\<close>

definition take_rows :: "'a list \<Rightarrow> int list \<Rightarrow> error + 'a list" where
  "take_rows xs idx = ebind (np_indices (length xs) idx) (\<lambda>ks. Inr (map ((!) xs) ks))"

text \<open>
  Boolean masks. \<open>true_idx m\<close> lists the positions where \<open>m\<close> holds, in increasing
  order; \<open>rank m i\<close> counts the positions before \<open>i\<close> where it holds. \<open>select m xs\<close> is
  \<open>xs[m]\<close> for a mask as long as \<open>xs\<close>.
\<close>

definition true_idx :: "bool list \<Rightarrow> nat list" where
  "true_idx m = filter (\<lambda>i. m ! i) [0..<length m]"

definition rank :: "bool list \<Rightarrow> nat \<Rightarrow> nat" where
  "rank m i = length (filter (\<lambda>b. b) (take i m))"

definition select :: "bool list \<Rightarrow> 'a list \<Rightarrow> 'a list" where
  "select m xs = map ((!) xs) (true_idx m)"

text \<open>
  Assigning a sequence broadcasts it: it must have as many entries as there are
  places, or exactly one entry, which is then repeated.
\<close>

definition broadcast_to :: "nat \<Rightarrow> 'a list \<Rightarrow> error + 'a list" where
  "broadcast_to n vs =
     (if length vs = n then Inr vs
      else if length vs = 1 then Inr (replicate n (hd vs))
      else Inl ValueError)"

text \<open>
  \<open>rs[m, c] = vs\<close>: the \<open>k\<close>-th row where the mask holds receives the \<open>k\<close>-th value in
  column \<open>c\<close> (\<open>upd\<close> writes that column). The mask must be as long as the array.
\<close>

definition put_mask :: "('r \<Rightarrow> 'v \<Rightarrow> 'r) \<Rightarrow> bool list \<Rightarrow> 'r list \<Rightarrow> 'v list \<Rightarrow> 'r list" where
  "put_mask upd m rs vs =
     map (\<lambda>i. if m ! i then upd (rs ! i) (vs ! rank m i) else rs ! i) [0..<length rs]"

definition mask_assign ::
  "('r \<Rightarrow> 'v \<Rightarrow> 'r) \<Rightarrow> bool list \<Rightarrow> 'r list \<Rightarrow> 'v list \<Rightarrow> error + 'r list" where
  "mask_assign upd m rs vs =
     (if length m \<noteq> length rs then Inl IndexError
      else ebind (broadcast_to (length (true_idx m)) vs) (\<lambda>vs'. Inr (put_mask upd m rs vs')))"

text \<open>\<open>rs[:, c] = vs\<close>.\<close>

definition col_assign :: "('r \<Rightarrow> 'v \<Rightarrow> 'r) \<Rightarrow> 'r list \<Rightarrow> 'v list \<Rightarrow> error + 'r list" where
  "col_assign upd rs vs = ebind (broadcast_to (length rs) vs) (\<lambda>vs'. Inr (map2 upd rs vs'))"

text \<open>
  \<open>rs[idx, c] = vs\<close> for an integer array \<open>idx\<close>: the writes happen in order, so where
  an index repeats the last value stays.
\<close>

definition writes :: "('r \<Rightarrow> 'v \<Rightarrow> 'r) \<Rightarrow> (nat \<times> 'v) list \<Rightarrow> 'r list \<Rightarrow> 'r list" where
  "writes upd kvs rs = fold (\<lambda>kv acc. acc[fst kv := upd (acc ! fst kv) (snd kv)]) kvs rs"

definition scatter :: "('r \<Rightarrow> 'v \<Rightarrow> 'r) \<Rightarrow> 'r list \<Rightarrow> int list \<Rightarrow> 'v list \<Rightarrow> error + 'r list" where
  "scatter upd rs idx vs =
     ebind (np_indices (length rs) idx) (\<lambda>ks.
     ebind (broadcast_to (length ks) vs) (\<lambda>vs'.
       Inr (writes upd (zip ks vs') rs)))"

text \<open>
  \<open>np.argsort\<close>: the positions of the entries in increasing order of value. Equal
  values keep their order here; numpy's default sort leaves their order open.
\<close>

definition argsort :: "int list \<Rightarrow> nat list" where
  "argsort xs = map snd (sort_key fst (zip xs [0..<length xs]))"

definition np_range :: "nat \<Rightarrow> nat \<Rightarrow> int list" where
  "np_range a b = map int [a..<b]"

section \<open>HalfEdgeDomain (fealpy/mesh/HalfEdgeDomain.py)\<close>

text \<open>
  A row of the half-edge table: columns 0 to 5 are the target vertex, the region on
  the left, the next half-edge, the previous one, the opposite one and the flag of the
  main half-edge of the edge.
\<close>

record hedge =
  target :: int
  region :: int
  nxt :: int
  prev :: int
  twin :: int
  primary :: int

definition zero_row :: hedge where
  "zero_row = \<lparr>target = 0, region = 0, nxt = 0, prev = 0, twin = 0, primary = 0\<rparr>"

definition set_target :: "hedge \<Rightarrow> int \<Rightarrow> hedge" where "set_target h v = h\<lparr>target := v\<rparr>"
definition set_region :: "hedge \<Rightarrow> int \<Rightarrow> hedge" where "set_region h v = h\<lparr>region := v\<rparr>"
definition set_nxt :: "hedge \<Rightarrow> int \<Rightarrow> hedge" where "set_nxt h v = h\<lparr>nxt := v\<rparr>"
definition set_prev :: "hedge \<Rightarrow> int \<Rightarrow> hedge" where "set_prev h v = h\<lparr>prev := v\<rparr>"
definition set_twin :: "hedge \<Rightarrow> int \<Rightarrow> hedge" where "set_twin h v = h\<lparr>twin := v\<rparr>"
definition set_primary :: "hedge \<Rightarrow> int \<Rightarrow> hedge" where "set_primary h v = h\<lparr>primary := v\<rparr>"

text \<open>
  The attributes of a domain. The half-edge tables are the arrays the refinement
  methods write into in place, so they are objects of a store and \<open>halfedge\<close> is a
  reference; the vertex and flag arrays are only read and rebuilt by concatenation,
  so they are values. \<open>fresh\<close> is the next unused reference. A marking array is
  written in place by the adaptive refinement, which returns its final contents here;
  it is taken to be an object of its own. The code is read with the numpy it is
  written for, where \<open>np.bool\<close> is the boolean type (it is gone from version 1.24 on).
\<close>

type_synonym point = "real list"
type_synonym ref = nat

record domain =
  vertices :: "point list"
  halfedge :: ref
  fixed :: "bool list"
  GD :: nat
  NS :: nat
  NV :: nat
  NE :: nat

record state =
  tables :: "ref \<Rightarrow> hedge list"
  fresh :: ref
  self :: domain

text \<open>\<open>__init__\<close>, for a vertex array with \<open>gd\<close> columns.\<close>

definition init_domain ::
  "nat \<Rightarrow> point list \<Rightarrow> ref \<Rightarrow> nat option \<Rightarrow> bool list option \<Rightarrow> (ref \<Rightarrow> hedge list) \<Rightarrow> domain" where
  "init_domain gd vs href ns fx tabs =
     \<lparr>vertices = vs, halfedge = href,
      fixed = (case fx of None \<Rightarrow> replicate (length vs) True | Some f \<Rightarrow> f),
      GD = gd,
      NS = (case ns of None \<Rightarrow> card (set (map region (tabs href))) | Some k \<Rightarrow> k),
      NV = length vs, NE = length (tabs href)\<rparr>"

definition midpoint :: "point \<Rightarrow> point \<Rightarrow> point" where
  "midpoint p q = map2 (\<lambda>x y. (x + y) / 2) p q"

definition is_main :: "hedge list \<Rightarrow> bool list" where
  "is_main hes = map (\<lambda>h. primary h = 1) hes"

text \<open>
  \<open>(vertices[halfedge[flag, 0]] + vertices[halfedge[idx, 0]])/2\<close> with
  \<open>idx = halfedge[flag, 4]\<close>: one midpoint for each half-edge selected by \<open>flag\<close>.
\<close>

definition edge_centers :: "point list \<Rightarrow> hedge list \<Rightarrow> bool list \<Rightarrow> error + point list" where
  "edge_centers vs hes flag =
     (let idx = select flag (map twin hes) in
      ebind (take_rows vs (select flag (map target hes))) (\<lambda>a.
      ebind (take_rows (map target hes) idx) (\<lambda>tw.
      ebind (take_rows vs tw) (\<lambda>b.
        Inr (map2 midpoint a b)))))"

subsection \<open>boundary_uniform_refine\<close>

text \<open>The table \<open>halfedge1\<close> of the new half-edges (lines 251 to 259).\<close>

definition uniform_rows :: "nat \<Rightarrow> nat \<Rightarrow> hedge list \<Rightarrow> error + hedge list" where
  "uniform_rows ne nv hes =
     (let isMainHEdge = is_main hes;
          idx = select isMainHEdge (map twin hes);
          halfedge1 = replicate ne zero_row
      in
      ebind (mask_assign set_target isMainHEdge halfedge1 (np_range nv (nv + ne div 2))) (\<lambda>h1.
      ebind (take_rows (select isMainHEdge (map target h1)) (map int (argsort idx))) (\<lambda>src.
      ebind (mask_assign set_target (map Not isMainHEdge) h1 src) (\<lambda>h1.
      ebind (col_assign set_region h1 (map region hes)) (\<lambda>h1.
      ebind (col_assign set_prev h1 (map prev hes)) (\<lambda>h1.
      ebind (col_assign set_twin h1 (map twin hes)) (\<lambda>h1.
      col_assign set_primary h1 (map primary hes))))))))"

text \<open>
  Lines 261 to 267: the writes into the old table, then the concatenation and the
  \<open>next\<close> column. The result is the old array as it is left and the new array.
\<close>

definition uniform_link :: "nat \<Rightarrow> hedge list \<Rightarrow> hedge list \<Rightarrow> error + hedge list \<times> hedge list" where
  "uniform_link ne hes halfedge1 =
     ebind (col_assign set_prev hes (np_range ne (2 * ne))) (\<lambda>hes1.
     ebind (take_rows (map prev hes1) (map twin hes1)) (\<lambda>pv.
     ebind (col_assign set_twin hes1 pv) (\<lambda>hes2.
     ebind (scatter set_nxt (hes2 @ halfedge1) (map prev (hes2 @ halfedge1)) (np_range 0 (2 * ne)))
       (\<lambda>new. Inr (hes2, new)))))"

text \<open>One pass of the loop body up to line 267: the midpoints, the old array as it
  is left, the new table.\<close>

definition uniform_level ::
  "nat \<Rightarrow> nat \<Rightarrow> point list \<Rightarrow> hedge list \<Rightarrow> error + point list \<times> hedge list \<times> hedge list" where
  "uniform_level ne nv vs hes =
     ebind (edge_centers vs hes (is_main hes)) (\<lambda>ec.
     ebind (uniform_rows ne nv hes) (\<lambda>halfedge1.
     ebind (uniform_link ne hes halfedge1) (\<lambda>r.
       Inr (ec, fst r, snd r))))"

text \<open>One pass in place (\<open>inplace\<close> true): lines 237 to 240 and 270 to 276.\<close>

definition uniform_inplace_pass :: "state \<Rightarrow> error + state" where
  "uniform_inplace_pass s =
     (let d = self s in
      ebind (uniform_level (NE d) (NV d) (vertices d) (tables s (halfedge d))) (\<lambda>(ec, old, new).
        if GD d = 0 then Inl IndexError
        else Inr (s\<lparr>tables := (tables s)(halfedge d := old, fresh s := new),
                    fresh := Suc (fresh s),
                    self := d\<lparr>halfedge := fresh s,
                               vertices := vertices d @ ec,
                               fixed := fixed d @ replicate (length ec) False,
                               NV := NV d + NE d div 2,
                               NE := NE d * 2\<rparr>\<rparr>)))"

fun uniform_inplace_loop :: "nat \<Rightarrow> state \<Rightarrow> error + state" where
  "uniform_inplace_loop 0 s = Inr s"
| "uniform_inplace_loop (Suc n) s = ebind (uniform_inplace_pass s) (uniform_inplace_loop n)"

text \<open>
  The pass on supplied arrays (\<open>inplace\<close> false): it ends at the \<open>return\<close> of line 278,
  inside the loop. The supplied vertex array is a value, the supplied table a reference.
\<close>

definition uniform_supplied_pass ::
  "point list \<Rightarrow> ref \<Rightarrow> state \<Rightarrow> error + state \<times> point list \<times> ref" where
  "uniform_supplied_pass vs href s =
     ebind (uniform_level (length (tables s href)) (length vs) vs (tables s href)) (\<lambda>(ec, old, new).
       Inr (s\<lparr>tables := (tables s)(href := old, fresh s := new), fresh := Suc (fresh s)\<rparr>,
            vs @ ec, fresh s))"

text \<open>
  \<open>boundary_uniform_refine(n, vertices, halfedge)\<close>. The result is the state and the
  returned value: \<open>None\<close>, or the pair of the vertex array and the new table.
\<close>

definition boundary_uniform_refine ::
  "nat \<Rightarrow> point list option \<Rightarrow> ref option \<Rightarrow> state \<Rightarrow> error + state \<times> (point list \<times> ref) option" where
  "boundary_uniform_refine n vs_arg he_arg s =
     (case (vs_arg, he_arg) of
        (Some vs, Some href) \<Rightarrow>
          if n = 0 then Inr (s, None)
          else ebind (uniform_supplied_pass vs href s) (\<lambda>(s', r). Inr (s', Some r))
      | _ \<Rightarrow> ebind (uniform_inplace_loop n s) (\<lambda>s'. Inr (s', None)))"

subsection \<open>boundary_adaptive_refine\<close>

text \<open>Line 185: \<open>isMarkedHEdge[halfedge[isMarkedHEdge, 4]] = True\<close>.\<close>

definition mark_twins :: "hedge list \<Rightarrow> bool list \<Rightarrow> error + bool list" where
  "mark_twins hes mark =
     (if length mark \<noteq> length hes then Inl IndexError
      else ebind (np_indices (length mark) (select mark (map twin hes))) (\<lambda>ks.
             Inr (fold (\<lambda>k m. m[k := True]) ks mark)))"

text \<open>The table \<open>halfedge1\<close> (lines 194 to 205), for \<open>n_ec = len(ec)\<close>.\<close>

definition adaptive_rows :: "nat \<Rightarrow> nat \<Rightarrow> hedge list \<Rightarrow> bool list \<Rightarrow> error + hedge list" where
  "adaptive_rows n_ec nv hes isMarkedHEdge =
     (let isMainHEdge = is_main hes;
          flag0 = map2 (\<and>) isMainHEdge isMarkedHEdge;
          idx = select flag0 (map twin hes);
          ne1 = 2 * n_ec;
          halfedge1 = replicate ne1 zero_row;
          flag1 = select isMarkedHEdge isMainHEdge
      in
      ebind (mask_assign set_target flag1 halfedge1 (np_range nv (nv + ne1 div 2))) (\<lambda>h1.
      ebind (take_rows (select flag1 (map target h1)) (map int (argsort idx))) (\<lambda>src.
      ebind (mask_assign set_target (map Not flag1) h1 src) (\<lambda>h1.
      ebind (col_assign set_region h1 (select isMarkedHEdge (map region hes))) (\<lambda>h1.
      ebind (col_assign set_prev h1 (select isMarkedHEdge (map prev hes))) (\<lambda>h1.
      ebind (col_assign set_twin h1 (select isMarkedHEdge (map twin hes))) (\<lambda>h1.
      col_assign set_primary h1 (select isMarkedHEdge (map primary hes)))))))))"

text \<open>Lines 207 to 212.\<close>

definition adaptive_link ::
  "nat \<Rightarrow> nat \<Rightarrow> hedge list \<Rightarrow> bool list \<Rightarrow> hedge list \<Rightarrow> error + hedge list \<times> hedge list" where
  "adaptive_link ne ne1 hes isMarkedHEdge halfedge1 =
     ebind (mask_assign set_prev isMarkedHEdge hes (np_range ne (ne + ne1))) (\<lambda>hes1.
     ebind (take_rows (map prev hes1) (select isMarkedHEdge (map twin hes1))) (\<lambda>pv.
     ebind (mask_assign set_twin isMarkedHEdge hes1 pv) (\<lambda>hes2.
     ebind (scatter set_nxt (hes2 @ halfedge1) (map prev (hes2 @ halfedge1)) (np_range 0 (ne + ne1)))
       (\<lambda>new. Inr (hes2, new)))))"

text \<open>
  Lines 185 to 212: the marking as it is left, the midpoints \<open>ec\<close>, the old array as
  it is left, the new table.
\<close>

definition adaptive_level ::
  "nat \<Rightarrow> nat \<Rightarrow> point list \<Rightarrow> hedge list \<Rightarrow> bool list \<Rightarrow> point list option
     \<Rightarrow> error + bool list \<times> point list \<times> hedge list \<times> hedge list" where
  "adaptive_level ne nv vs hes mark edgecenter =
     ebind (mark_twins hes mark) (\<lambda>isMarkedHEdge.
     ebind (case edgecenter of
              None \<Rightarrow> edge_centers vs hes (map2 (\<and>) (is_main hes) isMarkedHEdge)
            | Some e \<Rightarrow> Inr e) (\<lambda>ec.
     ebind (adaptive_rows (length ec) nv hes isMarkedHEdge) (\<lambda>halfedge1.
     ebind (adaptive_link ne (2 * length ec) hes isMarkedHEdge halfedge1) (\<lambda>r.
       Inr (isMarkedHEdge, ec, fst r, snd r)))))"

text \<open>
  \<open>boundary_adaptive_refine(isMarkedHEdge, vertices, halfedge, edgecenter)\<close>. The result
  is the state, the marking as it is left, and the returned value: \<open>None\<close> in place,
  else the pair of \<open>ec\<close> and the new table. In place, the concatenation of line 216
  needs the rows of \<open>ec\<close> to have the \<open>GD\<close> columns of the vertex array.
\<close>

definition boundary_adaptive_refine ::
  "bool list \<Rightarrow> point list option \<Rightarrow> ref option \<Rightarrow> point list option \<Rightarrow> state
     \<Rightarrow> error + state \<times> bool list \<times> (point list \<times> ref) option" where
  "boundary_adaptive_refine mark vs_arg he_arg edgecenter s =
     (case (vs_arg, he_arg) of
        (Some vs, Some href) \<Rightarrow>
          ebind (adaptive_level (length (tables s href)) (length vs) vs (tables s href) mark edgecenter)
            (\<lambda>(mark', ec, old, new).
               Inr (s\<lparr>tables := (tables s)(href := old, fresh s := new), fresh := Suc (fresh s)\<rparr>,
                    mark', Some (ec, fresh s)))
      | _ \<Rightarrow>
          (let d = self s in
           ebind (adaptive_level (NE d) (NV d) (vertices d) (tables s (halfedge d)) mark edgecenter)
             (\<lambda>(mark', ec, old, new).
                if \<not> list_all (\<lambda>p. length p = GD d) ec then Inl ValueError
                else if GD d = 0 then Inl IndexError
                else Inr (s\<lparr>tables := (tables s)(halfedge d := old, fresh s := new),
                            fresh := Suc (fresh s),
                            self := d\<lparr>halfedge := fresh s,
                                       vertices := vertices d @ ec,
                                       fixed := fixed d @ replicate (length ec) False,
                                       NV := NV d + (2 * length ec) div 2,
                                       NE := NE d + 2 * length ec\<rparr>\<rparr>,
                          mark', None))))"

section \<open>is_intersect (fealpy/mesh/HalfEdgeDomain.py, lines 496 to 521)\<close>

text \<open>
  The arguments are floating-point arrays of points with two columns, one row for each
  pair of segments. An operation on two arrays broadcasts: the arrays have the same
  number of rows, or one of them has a single row.
\<close>

type_synonym vec2 = "real \<times> real"

definition np_binop :: "('a \<Rightarrow> 'b \<Rightarrow> 'c) \<Rightarrow> 'a list \<Rightarrow> 'b list \<Rightarrow> error + 'c list" where
  "np_binop f xs ys =
     (if length xs = length ys then Inr (map2 f xs ys)
      else if length xs = 1 then Inr (map (f (hd xs)) ys)
      else if length ys = 1 then Inr (map (\<lambda>x. f x (hd ys)) xs)
      else Inl ValueError)"

definition sub2 :: "vec2 \<Rightarrow> vec2 \<Rightarrow> vec2" where
  "sub2 a b = (fst a - fst b, snd a - snd b)"

definition cross2 :: "vec2 \<Rightarrow> vec2 \<Rightarrow> real" where
  "cross2 a b = fst a * snd b - snd a * fst b"

text \<open>\<open>xs[m]\<close> and \<open>xs[m] = vs\<close> for a mask that need not be as long as \<open>xs\<close>.\<close>

definition mask_select :: "bool list \<Rightarrow> 'a list \<Rightarrow> error + 'a list" where
  "mask_select m xs = (if length m \<noteq> length xs then Inl IndexError else Inr (select m xs))"

text \<open>
  Lines 497 to 515: the mask \<open>flag\<close> of the pairs that are neither colinear nor
  parallel, the parameters \<open>t\<close> and \<open>u\<close>, and \<open>s\<close>.
\<close>

definition intersect_params ::
  "vec2 list \<Rightarrow> vec2 list \<Rightarrow> vec2 list \<Rightarrow> vec2 list
     \<Rightarrow> error + bool list \<times> real list \<times> real list \<times> vec2 list" where
  "intersect_params p0 p1 v0 v1 =
     ebind (np_binop sub2 p1 p0) (\<lambda>s.
     ebind (np_binop sub2 v1 v0) (\<lambda>r.
     ebind (np_binop sub2 v0 p1) (\<lambda>v.
     ebind (np_binop cross2 r s) (\<lambda>c0.
     ebind (np_binop cross2 v r) (\<lambda>c1.
     ebind (np_binop cross2 v s) (\<lambda>c2.
     ebind (np_binop (\<and>) (map (\<lambda>x. \<bar>x\<bar> = 0) c0) (map (\<lambda>x. \<bar>x\<bar> = 0) c1)) (\<lambda>isColinear.
     ebind (np_binop (\<and>) (map (\<lambda>x. \<bar>x\<bar> = 0) c0) (map (\<lambda>x. \<bar>x\<bar> \<noteq> 0) c1)) (\<lambda>isParallel.
     ebind (np_binop (\<and>) (map Not isColinear) (map Not isParallel)) (\<lambda>flag.
     ebind (mask_select flag c2) (\<lambda>c2f.
     ebind (mask_select flag c0) (\<lambda>c0f.
     ebind (np_binop (/) c2f c0f) (\<lambda>tq.
     ebind (mask_assign (\<lambda>_ q. q) flag (replicate (length s) 0) tq) (\<lambda>t.
     ebind (mask_select flag c1) (\<lambda>c1f.
     ebind (np_binop (/) c1f c0f) (\<lambda>uq.
     ebind (mask_assign (\<lambda>_ q. q) flag (replicate (length s) 0) uq) (\<lambda>u.
       Inr (flag, t, u, s)))))))))))))))))"

text \<open>
  The operands of line 517. \<open>&\<close> is \<open>bitwise_and\<close>, which numpy defines for boolean
  and integer operands and refuses, with a \<open>TypeError\<close>, for a floating-point one.
\<close>

datatype operand = BoolArray "bool list" | FloatArray "real list" | PyFloat real

fun bitwise_and :: "operand \<Rightarrow> operand \<Rightarrow> error + operand" where
  "bitwise_and (BoolArray a) (BoolArray b) = ebind (np_binop (\<and>) a b) (\<lambda>c. Inr (BoolArray c))"
| "bitwise_and _ _ = Inl TypeError"

fun as_reals :: "operand \<Rightarrow> real list" where
  "as_reals (BoolArray bs) = map (\<lambda>b. if b then 1 else 0) bs"
| "as_reals (FloatArray xs) = xs"
| "as_reals (PyFloat x) = [x]"

definition compare :: "(real \<Rightarrow> real \<Rightarrow> bool) \<Rightarrow> operand \<Rightarrow> operand \<Rightarrow> error + operand" where
  "compare rel a b = ebind (np_binop rel (as_reals a) (as_reals b)) (\<lambda>c. Inr (BoolArray c))"

text \<open>The truth value of an array: that of its one element; none with several.\<close>

fun truth :: "operand \<Rightarrow> error + bool" where
  "truth (BoolArray []) = Inr False"
| "truth (BoolArray [b]) = Inr b"
| "truth (BoolArray _) = Inl ValueError"
| "truth (FloatArray []) = Inr False"
| "truth (FloatArray [x]) = Inr (x \<noteq> 0)"
| "truth (FloatArray _) = Inl ValueError"
| "truth (PyFloat x) = Inr (x \<noteq> 0)"

text \<open>
  Line 517, \<open>flag & t >= 0.0 & t <= 1.0 & u >= 0.0 & u <= 1.0\<close>. In Python \<open>&\<close> binds
  tighter than a comparison, so this is the chain
  \<open>(flag & t) >= (0.0 & t) <= (1.0 & u) >= (0.0 & u) <= 1.0\<close>: the operands are
  evaluated from the left, and a comparison that is false ends the chain.
\<close>

definition line_517 :: "bool list \<Rightarrow> real list \<Rightarrow> real list \<Rightarrow> error + operand" where
  "line_517 flag t u =
     ebind (bitwise_and (BoolArray flag) (FloatArray t)) (\<lambda>a.
     ebind (bitwise_and (PyFloat 0) (FloatArray t)) (\<lambda>b.
     ebind (compare (\<ge>) a b) (\<lambda>r1.
     ebind (truth r1) (\<lambda>t1.
       if \<not> t1 then Inr r1 else
     ebind (bitwise_and (PyFloat 1) (FloatArray u)) (\<lambda>c.
     ebind (compare (\<le>) b c) (\<lambda>r2.
     ebind (truth r2) (\<lambda>t2.
       if \<not> t2 then Inr r2 else
     ebind (bitwise_and (PyFloat 0) (FloatArray u)) (\<lambda>d.
     ebind (compare (\<ge>) c d) (\<lambda>r3.
     ebind (truth r3) (\<lambda>t3.
       if \<not> t3 then Inr r3 else
     compare (\<le>) d (PyFloat 1)))))))))))"

text \<open>\<open>is_intersect\<close>: the value of \<open>isIntersect\<close>, and with \<open>returnin\<close> the points
  \<open>p0 + s*t\<close> as well.\<close>

definition is_intersect ::
  "vec2 list \<Rightarrow> vec2 list \<Rightarrow> vec2 list \<Rightarrow> vec2 list \<Rightarrow> bool
     \<Rightarrow> error + operand \<times> vec2 list option" where
  "is_intersect p0 p1 v0 v1 returnin =
     ebind (intersect_params p0 p1 v0 v1) (\<lambda>(flag, t, u, s).
     ebind (line_517 flag t u) (\<lambda>isIntersect.
       if returnin
       then ebind (np_binop (\<lambda>a q. (fst a * q, snd a * q)) s t) (\<lambda>st.
            ebind (np_binop (\<lambda>a b. (fst a + fst b, snd a + snd b)) p0 st) (\<lambda>pts.
              Inr (isIntersect, Some pts)))
       else Inr (isIntersect, None)))"

section \<open>Well-formed tables and domains\<close>

text \<open>The entries of the index columns of row \<open>h\<close>, as positions.\<close>

definition tw :: "hedge list \<Rightarrow> nat \<Rightarrow> nat" where "tw hes h = nat (twin (hes ! h))"
definition nx :: "hedge list \<Rightarrow> nat \<Rightarrow> nat" where "nx hes h = nat (nxt (hes ! h))"
definition pv :: "hedge list \<Rightarrow> nat \<Rightarrow> nat" where "pv hes h = nat (prev (hes ! h))"
definition tg :: "hedge list \<Rightarrow> nat \<Rightarrow> nat" where "tg hes h = nat (target (hes ! h))"

text \<open>
  The structural invariants of a half-edge table: the three index columns point into
  the table, \<open>twin\<close> is an involution, \<open>next\<close> and \<open>prev\<close> are inverse to each other, and
  of a half-edge and its twin exactly one is the main half-edge of their edge.
\<close>

definition invariants :: "hedge list \<Rightarrow> bool" where
  "invariants hes \<longleftrightarrow>
     (\<forall>h<length hes.
        0 \<le> twin (hes ! h) \<and> twin (hes ! h) < int (length hes) \<and>
        0 \<le> nxt (hes ! h) \<and> nxt (hes ! h) < int (length hes) \<and>
        0 \<le> prev (hes ! h) \<and> prev (hes ! h) < int (length hes) \<and>
        twin (hes ! tw hes h) = int h \<and>
        nxt (hes ! pv hes h) = int h \<and>
        prev (hes ! nx hes h) = int h \<and>
        ((primary (hes ! h) = 1) \<noteq> (primary (hes ! tw hes h) = 1)))"

definition targets_in :: "nat \<Rightarrow> hedge list \<Rightarrow> bool" where
  "targets_in nv hes \<longleftrightarrow> (\<forall>h<length hes. 0 \<le> target (hes ! h) \<and> target (hes ! h) < int nv)"

text \<open>A marking that holds for a half-edge exactly when it holds for its twin.\<close>

definition twin_closed :: "hedge list \<Rightarrow> bool list \<Rightarrow> bool" where
  "twin_closed hes m \<longleftrightarrow> length m = length hes \<and> (\<forall>h<length hes. m ! tw hes h = m ! h)"

text \<open>
  A valid domain: what \<open>__init__\<close> sets up from a vertex array with \<open>GD \<ge> 1\<close> columns,
  a flag for every vertex and a table that satisfies the invariants and points to
  existing vertices.
\<close>

definition valid_domain :: "state \<Rightarrow> bool" where
  "valid_domain s \<longleftrightarrow>
     (let d = self s; hes = tables s (halfedge d) in
      NE d = length hes \<and> NV d = length (vertices d) \<and> length (fixed d) = NV d \<and>
      0 < GD d \<and> list_all (\<lambda>p. length p = GD d) (vertices d) \<and>
      invariants hes \<and> targets_in (NV d) hes)"

section \<open>Closed forms used in the proofs\<close>

text \<open>The marking after line 185, the mask \<open>flag0\<close> of the marked main half-edges, and the
  midpoints, written out for a table that satisfies the invariants.\<close>

definition sym_mark :: "hedge list \<Rightarrow> bool list \<Rightarrow> bool list" where
  "sym_mark hes mark = map (\<lambda>h. mark ! h \<or> mark ! tw hes h) [0..<length hes]"

definition main_marked :: "hedge list \<Rightarrow> bool list \<Rightarrow> bool list" where
  "main_marked hes m = map2 (\<and>) (is_main hes) m"

definition centers :: "point list \<Rightarrow> hedge list \<Rightarrow> bool list \<Rightarrow> point list" where
  "centers vs hes flag =
     map (\<lambda>h. midpoint (vs ! tg hes h) (vs ! tg hes (tw hes h))) (true_idx flag)"

text \<open>The rows of \<open>halfedge1\<close>: row \<open>r\<close> belongs to the \<open>r\<close>-th marked half-edge.\<close>

definition new_target :: "hedge list \<Rightarrow> bool list \<Rightarrow> nat \<Rightarrow> nat \<Rightarrow> int" where
  "new_target hes m nv r =
     (let flag1 = select m (is_main hes);
          idx = select (main_marked hes m) (map twin hes)
      in if flag1 ! r then int nv + int (rank flag1 r)
         else int nv + int (argsort idx ! rank (map Not flag1) r))"

definition new_row :: "hedge list \<Rightarrow> bool list \<Rightarrow> nat \<Rightarrow> nat \<Rightarrow> hedge" where
  "new_row hes m nv r =
     (let h = true_idx m ! r in
      \<lparr>target = new_target hes m nv r, region = region (hes ! h), nxt = 0,
       prev = prev (hes ! h), twin = twin (hes ! h), primary = primary (hes ! h)\<rparr>)"

text \<open>
  The old array after lines 207 to 209, and the positions the \<open>prev\<close> and \<open>next\<close> columns
  of the new table hold: row \<open>length hes + r\<close> is the new half-edge of the \<open>r\<close>-th marked one.
\<close>

definition relinked :: "hedge list \<Rightarrow> bool list \<Rightarrow> nat \<Rightarrow> hedge" where
  "relinked hes m h =
     (if m ! h
      then (hes ! h)\<lparr>prev := int (length hes + rank m h),
                      twin := int (length hes + rank m (tw hes h))\<rparr>
      else hes ! h)"

definition prev_of :: "hedge list \<Rightarrow> bool list \<Rightarrow> nat \<Rightarrow> nat" where
  "prev_of hes m j =
     (if j < length hes then (if m ! j then length hes + rank m j else pv hes j)
      else pv hes (true_idx m ! (j - length hes)))"

definition next_of :: "hedge list \<Rightarrow> bool list \<Rightarrow> nat \<Rightarrow> nat" where
  "next_of hes m k =
     (if k < length hes
      then (if m ! nx hes k then length hes + rank m (nx hes k) else nx hes k)
      else true_idx m ! (k - length hes))"

definition twin_of :: "hedge list \<Rightarrow> bool list \<Rightarrow> nat \<Rightarrow> nat" where
  "twin_of hes m k =
     (if k < length hes then (if m ! k then length hes + rank m (tw hes k) else tw hes k)
      else tw hes (true_idx m ! (k - length hes)))"

definition joined :: "hedge list \<Rightarrow> bool list \<Rightarrow> nat \<Rightarrow> nat \<Rightarrow> hedge" where
  "joined hes m nv k =
     (if k < length hes then relinked hes m k else new_row hes m nv (k - length hes))"

definition refined :: "hedge list \<Rightarrow> bool list \<Rightarrow> nat \<Rightarrow> hedge list" where
  "refined hes m nv =
     map (\<lambda>k. (joined hes m nv k)\<lparr>nxt := int (next_of hes m k)\<rparr>)
       [0..<length hes + length (true_idx m)]"

text \<open>The half-edge of the old table a row of the new table comes from.\<close>

definition origin :: "hedge list \<Rightarrow> bool list \<Rightarrow> nat \<Rightarrow> nat" where
  "origin hes m k = (if k < length hes then k else true_idx m ! (k - length hes))"


text \<open>
  The table of the domain, and the state after a pass in place that refines the
  half-edges of the marking \<open>m\<close> and adds the vertices \<open>ec\<close>.
\<close>

definition own_table :: "state \<Rightarrow> hedge list" where
  "own_table s = tables s (halfedge (self s))"

definition refined_state :: "state \<Rightarrow> bool list \<Rightarrow> point list \<Rightarrow> state" where
  "refined_state s m ec =
     (let d = self s; hes = own_table s in
      s\<lparr>tables := (tables s)(halfedge d := map (relinked hes m) [0..<length hes],
                                 fresh s := refined hes m (NV d)),
        fresh := Suc (fresh s),
        self := d\<lparr>halfedge := fresh s,
                   vertices := vertices d @ ec,
                   fixed := fixed d @ replicate (length ec) False,
                   NV := NV d + length ec,
                   NE := NE d + length (true_idx m)\<rparr>\<rparr>)"

definition all_marked :: "state \<Rightarrow> bool list" where
  "all_marked s = replicate (NE (self s)) True"

definition uniform_next :: "state \<Rightarrow> state" where
  "uniform_next s =
     refined_state s (all_marked s) (centers (vertices (self s)) (own_table s) (is_main (own_table s)))"

text \<open>The midpoints \<open>ec\<close> of an adaptive pass: computed, or the supplied \<open>edgecenter\<close>.\<close>

definition adaptive_ec :: "state \<Rightarrow> bool list \<Rightarrow> point list option \<Rightarrow> point list" where
  "adaptive_ec s m edgecenter =
     (case edgecenter of
        None \<Rightarrow> centers (vertices (self s)) (own_table s) (main_marked (own_table s) m)
      | Some e \<Rightarrow> e)"

text \<open>A supplied \<open>edgecenter\<close> fits when it has one row of \<open>GD\<close> columns for each marked edge.\<close>

definition ec_fits :: "state \<Rightarrow> bool list \<Rightarrow> point list option \<Rightarrow> bool" where
  "ec_fits s m edgecenter =
     (case edgecenter of
        None \<Rightarrow> True
      | Some e \<Rightarrow> length e = length (true_idx (main_marked (own_table s) m))
                 \<and> list_all (\<lambda>p. length p = GD (self s)) e)"



section \<open>The boundary of the unit square\<close>

text \<open>
  The unit square with corners \<open>(0,0)\<close>, \<open>(1,0)\<close>, \<open>(1,1)\<close>, \<open>(0,1)\<close>: half-edges 0 to 3 run
  counter-clockwise around the interior (region 1) and are the main ones, half-edges
  4 to 7 are their twins around the exterior (region 0). The table is the array object
  at reference 0; reference 1 holds a copy of it.
\<close>

definition square_vertices :: "point list" where
  "square_vertices = [[0, 0], [1, 0], [1, 1], [0, 1]]"

definition row :: "int \<Rightarrow> int \<Rightarrow> int \<Rightarrow> int \<Rightarrow> int \<Rightarrow> int \<Rightarrow> hedge" where
  "row a b c d e f = \<lparr>target = a, region = b, nxt = c, prev = d, twin = e, primary = f\<rparr>"

definition square_halfedge :: "hedge list" where
  "square_halfedge =
     [row 1 1 1 3 4 1, row 2 1 2 0 5 1, row 3 1 3 1 6 1, row 0 1 0 2 7 1,
      row 0 0 7 5 0 0, row 1 0 4 6 1 0, row 2 0 5 7 2 0, row 3 0 6 4 3 0]"

definition square_tables :: "ref \<Rightarrow> hedge list" where
  "square_tables = (\<lambda>r. [])(0 := square_halfedge, 1 := square_halfedge)"

definition square :: state where
  "square = \<lparr>tables = square_tables, fresh = 2,
             self = init_domain 2 square_vertices 0 None None square_tables\<rparr>"

section \<open>Facts about the array operations and the refinement passes\<close>

text \<open>
  The proofs go through a closed form of one pass: on a table that satisfies the
  invariants every check of the pass succeeds, the rows of \<open>halfedge1\<close> are \<open>new_row\<close>, the
  old array is left as \<open>relinked\<close>, and the new table is \<open>refined\<close>, whose \<open>prev\<close>, \<open>next\<close>
  and \<open>twin\<close> columns are \<open>prev_of\<close>, \<open>next_of\<close> and \<open>twin_of\<close>. A uniform pass is the adaptive
  pass with every half-edge marked.
\<close>

lemma ebind_Inr [simp]: "ebind (Inr x) f = f x"
  by (simp add: ebind_def)

lemma ebind_Inl [simp]: "ebind (Inl e) f = Inl e"
  by (simp add: ebind_def)

lemma np_index_ok: "0 \<le> i \<Longrightarrow> i < int n \<Longrightarrow> np_index n i = Inr (nat i)"
  by (simp add: np_index_def)

lemma np_indices_ok:
  "\<forall>i\<in>set js. 0 \<le> i \<and> i < int n \<Longrightarrow> np_indices n js = Inr (map nat js)"
  by (induction js) (simp_all add: np_index_ok)

lemma take_rows_ok:
  "\<forall>i\<in>set js. 0 \<le> i \<and> i < int (length xs) \<Longrightarrow> take_rows xs js = Inr (map (\<lambda>i. xs ! nat i) js)"
  by (simp add: take_rows_def np_indices_ok)

lemma broadcast_to_ok: "length vs = n \<Longrightarrow> broadcast_to n vs = Inr vs"
  by (simp add: broadcast_to_def)

lemma length_put_mask [simp]: "length (put_mask upd m rs vs) = length rs"
  by (simp add: put_mask_def)

lemma nth_put_mask:
  "i < length rs \<Longrightarrow>
   put_mask upd m rs vs ! i = (if m ! i then upd (rs ! i) (vs ! rank m i) else rs ! i)"
  by (simp add: put_mask_def)

lemma mask_assign_ok:
  "length m = length rs \<Longrightarrow> length vs = length (true_idx m) \<Longrightarrow>
   mask_assign upd m rs vs = Inr (put_mask upd m rs vs)"
  by (simp add: mask_assign_def broadcast_to_ok)

lemma col_assign_ok:
  "length vs = length rs \<Longrightarrow> col_assign upd rs vs = Inr (map2 upd rs vs)"
  by (simp add: col_assign_def broadcast_to_ok)

subsection \<open>Masks\<close>

lemma rank_upt: "i \<le> length m \<Longrightarrow> rank m i = length (filter (\<lambda>k. m ! k) [0..<i])"
proof (induction i)
  case 0
  then show ?case by (simp add: rank_def)
next
  case (Suc i)
  then have "take (Suc i) m = take i m @ [m ! i]"
    by (simp add: take_Suc_conv_app_nth)
  with Suc show ?case by (simp add: rank_def)
qed

lemma distinct_true_idx [simp]: "distinct (true_idx m)"
  by (simp add: true_idx_def)


lemma set_true_idx: "set (true_idx m) = {i. i < length m \<and> m ! i}"
  by (auto simp: true_idx_def)

lemma true_idx_split:
  assumes "i \<le> length m"
  shows "true_idx m = filter (\<lambda>k. m ! k) [0..<i] @ filter (\<lambda>k. m ! k) [i..<length m]"
proof -
  have "[0..<length m] = [0..<i] @ [i..<length m]"
    using assms by (metis le_add_diff_inverse upt_add_eq_append zero_le)
  then show ?thesis by (simp add: true_idx_def flip: filter_append)
qed

lemma true_idx_rank:
  assumes "i < length m" "m ! i"
  shows "rank m i < length (true_idx m)" and "true_idx m ! rank m i = i"
proof -
  have r: "rank m i = length (filter (\<lambda>k. m ! k) [0..<i])"
    using assms by (simp add: rank_upt)
  have "[i..<length m] = i # [Suc i..<length m]"
    using assms by (simp add: upt_conv_Cons)
  then have s: "true_idx m = filter (\<lambda>k. m ! k) [0..<i] @ i # filter (\<lambda>k. m ! k) [Suc i..<length m]"
    using true_idx_split [of i m] assms by simp
  show "rank m i < length (true_idx m)" by (simp add: r s)
  show "true_idx m ! rank m i = i" by (simp add: r s nth_append)
qed

lemma true_idx_nth:
  assumes "j < length (true_idx m)"
  shows "true_idx m ! j < length m" and "m ! (true_idx m ! j)"
  using assms nth_mem [OF assms] by (auto simp: set_true_idx)

lemma rank_true_idx:
  assumes "j < length (true_idx m)"
  shows "rank m (true_idx m ! j) = j"
proof -
  let ?i = "true_idx m ! j"
  have i: "?i < length m" "m ! ?i" using true_idx_nth [OF assms] by auto
  from true_idx_rank [OF i] have "rank m ?i < length (true_idx m)" "true_idx m ! rank m ?i = ?i"
    by auto
  with assms show ?thesis
    using distinct_true_idx [of m] by (simp add: nth_eq_iff_index_eq)
qed

lemma length_select [simp]: "length (select m xs) = length (true_idx m)"
  by (simp add: select_def)

lemma nth_select: "j < length (true_idx m) \<Longrightarrow> select m xs ! j = xs ! (true_idx m ! j)"
  by (simp add: select_def)

lemma select_map: "length m = length xs \<Longrightarrow> select m (map f xs) = map f (select m xs)"
  by (auto simp: select_def true_idx_def)

lemma length_true_idx_card: "length (true_idx m) = card {i. i < length m \<and> m ! i}"
  using distinct_card [OF distinct_true_idx, of m] by (simp add: set_true_idx)

lemma true_idx_all [simp]: "true_idx (replicate n True) = [0..<n]"
  by (simp add: true_idx_def filter_id_conv)

lemma select_all: "length xs = n \<Longrightarrow> select (replicate n True) xs = xs"
  using map_nth [of xs] by (simp add: select_def)

lemma rank_all: "i \<le> n \<Longrightarrow> rank (replicate n True) i = i"
  by (simp add: rank_def)


subsection \<open>Scatter\<close>

lemma length_writes [simp]: "length (writes upd kvs rs) = length rs"
  by (induction kvs arbitrary: rs) (simp_all add: writes_def)

lemma writes_untouched: "k \<notin> fst ` set kvs \<Longrightarrow> writes upd kvs rs ! k = rs ! k"
  by (induction kvs arbitrary: rs) (auto simp: writes_def)

lemma writes_nth:
  assumes "distinct (map fst kvs)" "j < length kvs" "fst (kvs ! j) < length rs"
  shows "writes upd kvs rs ! fst (kvs ! j) = upd (rs ! fst (kvs ! j)) (snd (kvs ! j))"
  using assms
proof (induction kvs arbitrary: rs j)
  case Nil
  then show ?case by simp
next
  case (Cons kv kvs)
  have step: "writes upd (kv # kvs) rs = writes upd kvs (rs[fst kv := upd (rs ! fst kv) (snd kv)])"
    by (simp add: writes_def)
  show ?case
  proof (cases j)
    case 0
    have "fst kv \<notin> fst ` set kvs" using Cons.prems(1) by auto
    then show ?thesis using 0 Cons.prems(3) by (simp add: step writes_untouched)
  next
    case (Suc j')
    have j': "j' < length kvs" using Cons.prems(2) Suc by simp
    have ne: "fst (kvs ! j') \<noteq> fst kv"
      using Cons.prems(1) j' by (metis distinct.simps(2) list.simps(9) nth_map nth_mem length_map)
    have "writes upd kvs (rs[fst kv := upd (rs ! fst kv) (snd kv)]) ! fst (kvs ! j')
          = upd (rs[fst kv := upd (rs ! fst kv) (snd kv)] ! fst (kvs ! j')) (snd (kvs ! j'))"
      using Cons.prems j' Suc by (intro Cons.IH) auto
    then show ?thesis using Suc ne by (simp add: step)
  qed
qed

lemma scatter_ok:
  assumes "\<forall>i\<in>set idx. 0 \<le> i \<and> i < int (length rs)" "length vs = length idx"
  shows "scatter upd rs idx vs = Inr (writes upd (zip (map nat idx) vs) rs)"
  using assms by (simp add: scatter_def np_indices_ok broadcast_to_ok)

subsection \<open>argsort\<close>


lemma length_argsort [simp]: "length (argsort xs) = length xs"
  by (simp add: argsort_def)

lemma set_argsort: "set (argsort xs) = {0..<length xs}"
proof -
  have a: "set (argsort xs) = set (map snd (zip xs [0..<length xs]))"
    unfolding argsort_def set_map set_sort ..
  have "map snd (zip xs [0..<length xs]) = [0..<length xs]"
    by (rule map_snd_zip) simp
  with a show ?thesis by simp
qed

lemma argsort_less: "j < length xs \<Longrightarrow> argsort xs ! j < length xs"
  using set_argsort [of xs] nth_mem [of j "argsort xs"] by auto



subsection \<open>Consequences of the invariants\<close>

lemma inv_twin:
  assumes "invariants hes" "h < length hes"
  shows "tw hes h < length hes" "tw hes (tw hes h) = h" "twin (hes ! h) = int (tw hes h)"
    "(primary (hes ! tw hes h) = 1) = (primary (hes ! h) \<noteq> 1)" "tw hes h \<noteq> h"
  using assms by (auto simp: invariants_def tw_def)

lemma inv_next:
  assumes "invariants hes" "h < length hes"
  shows "nx hes h < length hes" "pv hes (nx hes h) = h" "nxt (hes ! h) = int (nx hes h)"
  using assms by (auto simp: invariants_def nx_def pv_def)

lemma inv_prev:
  assumes "invariants hes" "h < length hes"
  shows "pv hes h < length hes" "nx hes (pv hes h) = h" "prev (hes ! h) = int (pv hes h)"
  using assms by (auto simp: invariants_def nx_def pv_def)

lemma targets_inD:
  assumes "targets_in nv hes" "h < length hes"
  shows "tg hes h < nv" "target (hes ! h) = int (tg hes h)"
  using assms by (auto simp: targets_in_def tg_def)

lemma twin_closedD:
  assumes "twin_closed hes m" "h < length hes"
  shows "m ! tw hes h = m ! h" "length m = length hes"
  using assms by (auto simp: twin_closed_def)

subsection \<open>Marking the twins\<close>

lemma fold_set_True_length [simp]: "length (fold (\<lambda>k m. m[k := True]) ks m) = length m"
  by (induction ks arbitrary: m) simp_all

lemma fold_set_True_nth:
  "k < length m \<Longrightarrow> fold (\<lambda>j m. m[j := True]) ks m ! k = (m ! k \<or> k \<in> set ks)"
proof (induction ks arbitrary: m)
  case Nil
  then show ?case by simp
next
  case (Cons a ks)
  have "m[a := True] ! k = (m ! k \<or> k = a)"
    using Cons.prems by (cases "a = k") simp_all
  then show ?case using Cons by auto
qed

lemma mark_twins_ok:
  assumes inv: "invariants hes" and len: "length mark = length hes"
  shows "mark_twins hes mark = Inr (sym_mark hes mark)"
proof -
  let ?n = "length hes"
  let ?js = "select mark (map twin hes)"
  have js: "?js = map (\<lambda>h. int (tw hes h)) (true_idx mark)"
    using len by (auto simp: select_def set_true_idx inv_twin(3) [OF inv])
  have rng: "\<forall>i\<in>set ?js. 0 \<le> i \<and> i < int (length hes)"
    using len inv_twin(1) [OF inv] by (auto simp: js set_true_idx)
  have ks: "map nat ?js = map (tw hes) (true_idx mark)" by (simp add: js)
  have "fold (\<lambda>k m. m[k := True]) (map (tw hes) (true_idx mark)) mark = sym_mark hes mark"
  proof (rule nth_equalityI)
    show "length (fold (\<lambda>k m. m[k := True]) (map (tw hes) (true_idx mark)) mark)
          = length (sym_mark hes mark)"
      by (simp add: sym_mark_def len)
  next
    fix k assume "k < length (fold (\<lambda>k m. m[k := True]) (map (tw hes) (true_idx mark)) mark)"
    then have k: "k < ?n" by (simp add: len)
    have "k \<in> tw hes ` set (true_idx mark) \<longleftrightarrow> mark ! tw hes k"
    proof
      assume "k \<in> tw hes ` set (true_idx mark)"
      then obtain j where j: "j < ?n" "mark ! j" "k = tw hes j"
        by (auto simp: set_true_idx len)
      then show "mark ! tw hes k" using inv_twin(2) [OF inv j(1)] by simp
    next
      assume m: "mark ! tw hes k"
      have "tw hes k \<in> set (true_idx mark)"
        using m inv_twin(1) [OF inv k] by (simp add: set_true_idx len)
      moreover have "k = tw hes (tw hes k)" using inv_twin(2) [OF inv k] by simp
      ultimately show "k \<in> tw hes ` set (true_idx mark)" by blast
    qed
    then show "fold (\<lambda>k m. m[k := True]) (map (tw hes) (true_idx mark)) mark ! k
               = sym_mark hes mark ! k"
      using k by (simp add: fold_set_True_nth len sym_mark_def)
  qed
  then show ?thesis
    using len by (simp add: mark_twins_def np_indices_ok [OF rng] ks)
qed

lemma sym_mark_closed:
  assumes inv: "invariants hes"
  shows "twin_closed hes (sym_mark hes mark)"
  using inv_twin(1,2) [OF inv] by (auto simp: twin_closed_def sym_mark_def)

lemma sym_mark_all: "length hes = n \<Longrightarrow> sym_mark hes (replicate n True) = replicate n True"
  by (auto simp: sym_mark_def intro!: nth_equalityI)

lemma sym_mark_id: "twin_closed hes m \<Longrightarrow> sym_mark hes m = m"
  by (auto simp: sym_mark_def twin_closed_def intro!: nth_equalityI)

subsection \<open>As many marked main half-edges as marked other ones\<close>

lemma main_marked_nth:
  "length m = length hes \<Longrightarrow> h < length hes \<Longrightarrow>
   main_marked hes m ! h = (primary (hes ! h) = 1 \<and> m ! h)"
  by (simp add: main_marked_def is_main_def)

lemma length_main_marked [simp]: "length m = length hes \<Longrightarrow> length (main_marked hes m) = length hes"
  by (simp add: main_marked_def is_main_def)

lemma count_marked:
  assumes inv: "invariants hes" and cl: "twin_closed hes m"
  shows "length (true_idx m) = 2 * length (true_idx (main_marked hes m))"
proof -
  let ?n = "length hes"
  have len: "length m = ?n" using cl by (simp add: twin_closed_def)
  let ?A = "{h. h < ?n \<and> m ! h \<and> primary (hes ! h) = 1}"
  let ?B = "{h. h < ?n \<and> m ! h \<and> primary (hes ! h) \<noteq> 1}"
  have "bij_betw (tw hes) ?A ?B"
  proof (rule bij_betw_byWitness [where f' = "tw hes"])
    show "\<forall>a\<in>?A. tw hes (tw hes a) = a" using inv_twin(2) [OF inv] by simp
    show "\<forall>a\<in>?B. tw hes (tw hes a) = a" using inv_twin(2) [OF inv] by simp
    show "tw hes ` ?A \<subseteq> ?B"
      using inv_twin(1,4) [OF inv] twin_closedD(1) [OF cl] by auto
    show "tw hes ` ?B \<subseteq> ?A"
      using inv_twin(1,4) [OF inv] twin_closedD(1) [OF cl] by auto
  qed
  then have c: "card ?A = card ?B" by (rule bij_betw_same_card)
  have "{h. h < length m \<and> m ! h} = ?A \<union> ?B" using len by auto
  moreover have "?A \<inter> ?B = {}" by auto
  ultimately have "card {h. h < length m \<and> m ! h} = card ?A + card ?B"
    by (simp add: card_Un_disjoint)
  moreover have "{h. h < length (main_marked hes m) \<and> main_marked hes m ! h} = ?A"
    using len by (auto simp: main_marked_nth)
  ultimately show ?thesis
    using c by (simp add: length_true_idx_card)
qed

subsection \<open>The midpoints\<close>

lemma edge_centers_ok:
  assumes inv: "invariants hes" and tgt: "targets_in (length vs) hes"
    and len: "length flag = length hes"
  shows "edge_centers vs hes flag = Inr (centers vs hes flag)"
proof -
  let ?K = "true_idx flag"
  have K: "\<forall>h\<in>set ?K. h < length hes" using len by (simp add: set_true_idx)
  have s1: "select flag (map target hes) = map (\<lambda>h. int (tg hes h)) ?K"
    using K targets_inD(2) [OF tgt] by (simp add: select_def)
  have s2: "select flag (map twin hes) = map (\<lambda>h. int (tw hes h)) ?K"
    using K inv_twin(3) [OF inv] by (simp add: select_def)
  have r1: "take_rows vs (map (\<lambda>h. int (tg hes h)) ?K) = Inr (map (\<lambda>h. vs ! tg hes h) ?K)"
    using K targets_inD(1) [OF tgt] by (subst take_rows_ok) (auto simp: comp_def)
  have r2: "take_rows (map target hes) (map (\<lambda>h. int (tw hes h)) ?K)
            = Inr (map (\<lambda>h. int (tg hes (tw hes h))) ?K)"
    using K inv_twin(1) [OF inv] targets_inD(2) [OF tgt]
    by (subst take_rows_ok) (auto simp: comp_def)
  have r3: "take_rows vs (map (\<lambda>h. int (tg hes (tw hes h))) ?K)
            = Inr (map (\<lambda>h. vs ! tg hes (tw hes h)) ?K)"
    using K inv_twin(1) [OF inv] targets_inD(1) [OF tgt]
    by (subst take_rows_ok) (auto simp: comp_def)
  show ?thesis
    by (simp add: edge_centers_def s1 s2 r1 r2 r3 centers_def zip_map_map zip_same_conv_map comp_def)
qed

lemma length_centers [simp]: "length (centers vs hes flag) = length (true_idx flag)"
  by (simp add: centers_def)


subsection \<open>More on masks\<close>

lemma true_idx_snoc:
  "true_idx (m @ [b]) = true_idx m @ (if b then [length m] else [])"
proof -
  have "filter (\<lambda>i. (m @ [b]) ! i) [0..<length m] = filter (\<lambda>i. m ! i) [0..<length m]"
    by (rule filter_cong) (auto simp: nth_append)
  then show ?thesis by (simp add: true_idx_def)
qed

lemma select_map_filter: "select (map P xs) xs = filter P xs"
proof (induction xs rule: rev_induct)
  case Nil
  then show ?case by (simp add: select_def true_idx_def)
next
  case (snoc x xs)
  have a: "map ((!) (xs @ [x])) (true_idx (map P xs)) = map ((!) xs) (true_idx (map P xs))"
    by (rule map_cong) (auto simp: set_true_idx nth_append)
  have b: "map ((!) xs) (true_idx (map P xs)) = filter P xs"
    using snoc by (simp add: select_def)
  have "select (map P (xs @ [x])) (xs @ [x])
        = map ((!) (xs @ [x])) (true_idx (map P xs @ [P x]))"
    by (simp add: select_def)
  also have "\<dots> = map ((!) (xs @ [x])) (true_idx (map P xs)) @ (if P x then [x] else [])"
    by (simp add: true_idx_snoc)
  also have "\<dots> = filter P (xs @ [x])"
    unfolding a b by simp
  finally show ?case .
qed

lemma length_true_idx_map: "length (true_idx (map P xs)) = length (filter P xs)"
  using select_map_filter [of P xs] by (metis length_select)

lemma length_true_idx_Not:
  "length (true_idx (map Not m)) + length (true_idx m) = length m"
proof -
  have "length (true_idx (map Not m)) = length (filter Not m)"
    by (rule length_true_idx_map)
  moreover have "length (true_idx m) = length (filter (\<lambda>b. b) m)"
    using length_true_idx_map [of "\<lambda>b. b" m] by simp
  ultimately show ?thesis
    using sum_length_filter_compl [of "\<lambda>b. b" m] by (simp add: comp_def)
qed

lemma true_idx_main_marked:
  assumes "length m = length hes"
  shows "true_idx (main_marked hes m) = filter (\<lambda>h. primary (hes ! h) = 1) (true_idx m)"
proof -
  have "filter (\<lambda>i. main_marked hes m ! i) [0..<length hes]
        = filter (\<lambda>i. primary (hes ! i) = 1 \<and> m ! i) [0..<length hes]"
    using assms by (intro filter_cong) (auto simp: main_marked_nth)
  then show ?thesis
    using assms by (simp add: true_idx_def conj_commute)
qed


subsection \<open>The new rows\<close>

lemma length_np_range [simp]: "length (np_range a b) = b - a"
  by (simp add: np_range_def)

lemma nth_np_range: "j < b - a \<Longrightarrow> np_range a b ! j = int a + int j"
  by (simp add: np_range_def)

lemma length_is_main [simp]: "length (is_main hes) = length hes"
  by (simp add: is_main_def)

lemma flag1_eq:
  assumes "length m = length hes"
  shows "select m (is_main hes) = map (\<lambda>h. primary (hes ! h) = 1) (true_idx m)"
  using assms by (simp add: select_def is_main_def set_true_idx)

lemma length_true_idx_flag1:
  assumes "length m = length hes"
  shows "length (true_idx (select m (is_main hes))) = length (true_idx (main_marked hes m))"
  using assms by (simp add: flag1_eq length_true_idx_map true_idx_main_marked)

lemma adaptive_rows_ok:
  assumes inv: "invariants hes" and cl: "twin_closed hes m"
    and nec: "n_ec = length (true_idx (main_marked hes m))"
  shows "adaptive_rows n_ec nv hes m = Inr (map (new_row hes m nv) [0..<length (true_idx m)])"
proof -
  let ?K = "true_idx m"
  let ?k = "length ?K"
  let ?flag1 = "select m (is_main hes)"
  let ?idx = "select (main_marked hes m) (map twin hes)"
  have len: "length m = length hes" using cl by (simp add: twin_closed_def)
  have k2: "?k = 2 * n_ec" using count_marked [OF inv cl] nec by simp
  have lf: "length ?flag1 = ?k" by simp
  have ct: "length (true_idx ?flag1) = n_ec"
    using length_true_idx_flag1 [OF len] nec by simp
  have cn: "length (true_idx (map Not ?flag1)) = n_ec"
    using length_true_idx_Not [of ?flag1] ct k2 by simp
  have lidx: "length ?idx = n_ec" using nec by simp
  let ?h0 = "replicate (2 * n_ec) zero_row"
  let ?h1 = "put_mask set_target ?flag1 ?h0 (np_range nv (nv + n_ec))"
  have a1: "mask_assign set_target ?flag1 ?h0 (np_range nv (nv + n_ec)) = Inr ?h1"
    by (rule mask_assign_ok) (simp_all add: k2 ct)
  have sel: "select ?flag1 (map target ?h1) = np_range nv (nv + n_ec)"
  proof (rule nth_equalityI)
    show "length (select ?flag1 (map target ?h1)) = length (np_range nv (nv + n_ec))"
      by (simp add: ct)
  next
    fix j assume "j < length (select ?flag1 (map target ?h1))"
    then have j: "j < length (true_idx ?flag1)" by simp
    have r: "true_idx ?flag1 ! j < 2 * n_ec" "?flag1 ! (true_idx ?flag1 ! j)"
      using true_idx_nth [OF j] k2 by simp_all
    show "select ?flag1 (map target ?h1) ! j = np_range nv (nv + n_ec) ! j"
      using j r ct
      by (simp add: nth_select nth_put_mask rank_true_idx nth_np_range set_target_def)
  qed
  let ?src = "map (\<lambda>a. int nv + int a) (argsort ?idx)"
  have a2: "take_rows (np_range nv (nv + n_ec)) (map int (argsort ?idx)) = Inr ?src"
  proof -
    have "\<forall>i\<in>set (map int (argsort ?idx)). 0 \<le> i \<and> i < int (length (np_range nv (nv + n_ec)))"
      using set_argsort [of ?idx] lidx by auto
    from take_rows_ok [OF this] have
      "take_rows (np_range nv (nv + n_ec)) (map int (argsort ?idx))
       = Inr (map (\<lambda>i. np_range nv (nv + n_ec) ! nat i) (map int (argsort ?idx)))" .
    also have "map (\<lambda>i. np_range nv (nv + n_ec) ! nat i) (map int (argsort ?idx)) = ?src"
      using set_argsort [of ?idx] lidx by (auto simp: nth_np_range)
    finally show ?thesis .
  qed
  let ?h2 = "put_mask set_target (map Not ?flag1) ?h1 ?src"
  have a3: "mask_assign set_target (map Not ?flag1) ?h1 ?src = Inr ?h2"
    by (rule mask_assign_ok) (simp_all add: k2 cn nec [symmetric])
  have l2: "length ?h2 = ?k" by (simp add: k2)
  have ls: "length (select m (map f hes)) = ?k" for f :: "hedge \<Rightarrow> int" by simp
  let ?c1 = "map2 set_region ?h2 (select m (map region hes))"
  let ?c2 = "map2 set_prev ?c1 (select m (map prev hes))"
  let ?c3 = "map2 set_twin ?c2 (select m (map twin hes))"
  let ?c4 = "map2 set_primary ?c3 (select m (map primary hes))"
  have b1: "col_assign set_region ?h2 (select m (map region hes)) = Inr ?c1"
    by (rule col_assign_ok) (simp add: k2)
  have b2: "col_assign set_prev ?c1 (select m (map prev hes)) = Inr ?c2"
    by (rule col_assign_ok) (simp add: k2)
  have b3: "col_assign set_twin ?c2 (select m (map twin hes)) = Inr ?c3"
    by (rule col_assign_ok) (simp add: k2)
  have b4: "col_assign set_primary ?c3 (select m (map primary hes)) = Inr ?c4"
    by (rule col_assign_ok) (simp add: k2)
  have fin: "?c4 = map (new_row hes m nv) [0..<?k]"
  proof (rule nth_equalityI)
    show "length ?c4 = length (map (new_row hes m nv) [0..<?k])" by (simp add: k2)
  next
    fix r assume "r < length ?c4"
    then have r: "r < ?k" by (simp add: k2)
    then have r2: "r < 2 * n_ec" using k2 by simp
    have Kr: "?K ! r < length hes" using true_idx_nth(1) [OF r] len by simp
    have rk1: "rank ?flag1 r < n_ec" if "?flag1 ! r"
      using true_idx_rank(1) [of r ?flag1] that r ct by simp
    have rk2: "rank (map Not ?flag1) r < length (argsort ?idx)" if "\<not> ?flag1 ! r"
      using true_idx_rank(1) [of r "map Not ?flag1"] that r cn lidx by simp
    have tgt: "target (?h2 ! r) = new_target hes m nv r"
    proof (cases "?flag1 ! r")
      case True
      then show ?thesis
        using r r2 rk1
        by (simp add: nth_put_mask new_target_def Let_def set_target_def nth_np_range zero_row_def)
    next
      case False
      then show ?thesis
        using r r2 rk2
        by (simp add: nth_put_mask new_target_def Let_def set_target_def zero_row_def)
    qed
    have rest: "region (?h2 ! r) = 0" "nxt (?h2 ! r) = 0" "prev (?h2 ! r) = 0" "twin (?h2 ! r) = 0"
      "primary (?h2 ! r) = 0"
      using r2 by (simp_all add: nth_put_mask set_target_def zero_row_def)
    show "?c4 ! r = map (new_row hes m nv) [0..<?k] ! r"
      using r r2 Kr tgt
      by (simp add: new_row_def Let_def nth_select set_region_def set_prev_def set_twin_def
          set_primary_def zero_row_def nth_put_mask set_target_def)
  qed
  show ?thesis
    unfolding adaptive_rows_def Let_def
    by (simp add: main_marked_def [symmetric] a1 sel a2 a3 b1 b2 b3 b4 fin)
qed


subsection \<open>The links of the new table\<close>

lemma marked_rank:
  assumes "length m = length hes" "h < length hes" "m ! h"
  shows "rank m h < length (true_idx m)" "true_idx m ! rank m h = h"
  using true_idx_rank [of h m] assms by simp_all

lemma marked_nth:
  assumes "length m = length hes" "r < length (true_idx m)"
  shows "true_idx m ! r < length hes" "m ! (true_idx m ! r)" "rank m (true_idx m ! r) = r"
  using true_idx_nth [OF assms(2)] rank_true_idx [OF assms(2)] assms(1) by simp_all

lemma prev_of_next_of:
  assumes inv: "invariants hes" and len: "length m = length hes"
    and k: "k < length hes + length (true_idx m)"
  shows "next_of hes m k < length hes + length (true_idx m)"
    and "prev_of hes m (next_of hes m k) = k"
proof -
  show "next_of hes m k < length hes + length (true_idx m)"
  proof (cases "k < length hes")
    case True
    then show ?thesis
      using inv_next(1) [OF inv True] marked_rank(1) [OF len, of "nx hes k"]
      by (auto simp: next_of_def)
  next
    case False
    then have r: "k - length hes < length (true_idx m)" using k by simp
    show ?thesis
      using False marked_nth(1) [OF len r] by (simp add: next_of_def)
  qed
  show "prev_of hes m (next_of hes m k) = k"
  proof (cases "k < length hes")
    case True
    note g = inv_next(1,2) [OF inv True]
    show ?thesis
    proof (cases "m ! nx hes k")
      case m: True
      then show ?thesis
        using True g marked_rank [OF len g(1) m] by (simp add: next_of_def prev_of_def)
    next
      case False
      then show ?thesis using True g by (simp add: next_of_def prev_of_def)
    qed
  next
    case False
    then have r: "k - length hes < length (true_idx m)" using k by simp
    show ?thesis
      using False marked_nth [OF len r] by (simp add: next_of_def prev_of_def)
  qed
qed

lemma next_of_prev_of:
  assumes inv: "invariants hes" and len: "length m = length hes"
    and j: "j < length hes + length (true_idx m)"
  shows "prev_of hes m j < length hes + length (true_idx m)"
    and "next_of hes m (prev_of hes m j) = j"
proof -
  show "prev_of hes m j < length hes + length (true_idx m)"
  proof (cases "j < length hes")
    case True
    then show ?thesis
      using inv_prev(1) [OF inv True] marked_rank(1) [OF len True]
      by (auto simp: prev_of_def)
  next
    case False
    then have r: "j - length hes < length (true_idx m)" using j by simp
    show ?thesis
      using False inv_prev(1) [OF inv marked_nth(1) [OF len r]] by (simp add: prev_of_def)
  qed
  show "next_of hes m (prev_of hes m j) = j"
  proof (cases "j < length hes")
    case True
    note p = inv_prev(1,2) [OF inv True]
    show ?thesis
    proof (cases "m ! j")
      case m: True
      then show ?thesis
        using True marked_rank [OF len True m] by (simp add: next_of_def prev_of_def)
    next
      case False
      then show ?thesis using True p by (simp add: next_of_def prev_of_def)
    qed
  next
    case False
    then have r: "j - length hes < length (true_idx m)" using j by simp
    note K = marked_nth [OF len r]
    note p = inv_prev(1,2) [OF inv K(1)]
    show ?thesis
      using False K p r j by (simp add: next_of_def prev_of_def)
  qed
qed

lemma prev_joined:
  assumes inv: "invariants hes" and len: "length m = length hes"
    and j: "j < length hes + length (true_idx m)"
  shows "prev (joined hes m nv j) = int (prev_of hes m j)"
proof (cases "j < length hes")
  case True
  then show ?thesis
    using inv_prev(3) [OF inv True] by (simp add: joined_def relinked_def prev_of_def)
next
  case False
  then have r: "j - length hes < length (true_idx m)" using j by simp
  show ?thesis
    using False inv_prev(3) [OF inv marked_nth(1) [OF len r]]
    by (simp add: joined_def new_row_def prev_of_def Let_def)
qed

lemma adaptive_link_ok:
  assumes inv: "invariants hes" and cl: "twin_closed hes m"
  shows "adaptive_link (length hes) (length (true_idx m)) hes m
           (map (new_row hes m nv) [0..<length (true_idx m)])
         = Inr (map (relinked hes m) [0..<length hes], refined hes m nv)"
proof -
  let ?n = "length hes"
  let ?K = "true_idx m"
  let ?k = "length ?K"
  let ?N = "?n + ?k"
  let ?rows = "map (new_row hes m nv) [0..<?k]"
  have len: "length m = ?n" using cl by (simp add: twin_closed_def)
  let ?hes1 = "put_mask set_prev m hes (np_range ?n ?N)"
  have a1: "mask_assign set_prev m hes (np_range ?n ?N) = Inr ?hes1"
    by (rule mask_assign_ok) (simp_all add: len)
  have tw1: "map twin ?hes1 = map twin hes"
    by (rule nth_equalityI) (simp_all add: nth_put_mask set_prev_def)
  have K: "\<forall>h\<in>set ?K. h < ?n \<and> m ! h" using len by (simp add: set_true_idx)
  have s2: "select m (map twin hes) = map (\<lambda>h. int (tw hes h)) ?K"
    using K inv_twin(3) [OF inv] by (simp add: select_def)
  let ?pvs = "map (\<lambda>h. int (?n + rank m (tw hes h))) ?K"
  have a2: "take_rows (map prev ?hes1) (map (\<lambda>h. int (tw hes h)) ?K) = Inr ?pvs"
  proof -
    have "\<forall>i\<in>set (map (\<lambda>h. int (tw hes h)) ?K). 0 \<le> i \<and> i < int (length (map prev ?hes1))"
      using K inv_twin(1) [OF inv] by auto
    from take_rows_ok [OF this] have
      "take_rows (map prev ?hes1) (map (\<lambda>h. int (tw hes h)) ?K)
       = Inr (map (\<lambda>i. map prev ?hes1 ! nat i) (map (\<lambda>h. int (tw hes h)) ?K))" .
    also have "map (\<lambda>i. map prev ?hes1 ! nat i) (map (\<lambda>h. int (tw hes h)) ?K) = ?pvs"
      using K inv_twin(1) [OF inv] twin_closedD(1) [OF cl]
      by (auto simp: nth_put_mask set_prev_def nth_np_range marked_rank(1) [OF len])
    finally show ?thesis .
  qed
  let ?hes2 = "put_mask set_twin m ?hes1 ?pvs"
  have a3: "mask_assign set_twin m ?hes1 ?pvs = Inr ?hes2"
    by (rule mask_assign_ok) (simp_all add: len)
  have h2: "?hes2 = map (relinked hes m) [0..<?n]"
  proof (rule nth_equalityI)
    show "length ?hes2 = length (map (relinked hes m) [0..<?n])" by simp
  next
    fix h assume "h < length ?hes2"
    then have h: "h < ?n" by simp
    show "?hes2 ! h = map (relinked hes m) [0..<?n] ! h"
    proof (cases "m ! h")
      case True
      then show ?thesis
        using h marked_rank [OF len h True]
        by (simp add: nth_put_mask relinked_def set_twin_def set_prev_def nth_np_range)
    next
      case False
      then show ?thesis using h by (simp add: nth_put_mask relinked_def)
    qed
  qed
  let ?new0 = "map (relinked hes m) [0..<?n] @ ?rows"
  have new0: "?new0 = map (joined hes m nv) [0..<?N]"
    by (rule nth_equalityI) (auto simp: nth_append joined_def)
  let ?P = "map (\<lambda>j. int (prev_of hes m j)) [0..<?N]"
  have P: "map prev ?new0 = ?P"
    unfolding new0 by (simp add: prev_joined [OF inv len])
  have rng: "\<forall>i\<in>set ?P. 0 \<le> i \<and> i < int (length ?new0)"
  proof
    fix i assume "i \<in> set ?P"
    then obtain j where j: "j < ?N" "i = int (prev_of hes m j)" by auto
    from next_of_prev_of(1) [OF inv len j(1)] j(2)
    show "0 \<le> i \<and> i < int (length ?new0)" by simp
  qed
  let ?kvs = "zip (map nat ?P) (np_range 0 ?N)"
  have a4: "scatter set_nxt ?new0 ?P (np_range 0 ?N) = Inr (writes set_nxt ?kvs ?new0)"
    by (rule scatter_ok [OF rng]) simp
  have kvs: "?kvs = map (\<lambda>j. (prev_of hes m j, int j)) [0..<?N]"
    by (rule nth_equalityI) (simp_all add: nth_np_range)
  have dist: "distinct (map fst ?kvs)"
  proof -
    have "inj_on (prev_of hes m) {0..<?N}"
      by (rule inj_on_inverseI [where g = "next_of hes m"])
         (simp add: next_of_prev_of(2) [OF inv len])
    then show ?thesis
      unfolding kvs by (simp add: distinct_map comp_def)
  qed
  have fin: "writes set_nxt ?kvs ?new0 = refined hes m nv"
  proof (rule nth_equalityI)
    show "length (writes set_nxt ?kvs ?new0) = length (refined hes m nv)"
      by (simp add: refined_def)
  next
    fix k assume "k < length (writes set_nxt ?kvs ?new0)"
    then have k: "k < ?N" by simp
    let ?j = "next_of hes m k"
    note q = prev_of_next_of [OF inv len k]
    have j: "?j < length ?kvs" using q(1) by simp
    have kj: "?kvs ! ?j = (k, int ?j)" unfolding kvs using q by simp
    have f: "fst (?kvs ! ?j) = k" "snd (?kvs ! ?j) = int ?j" by (simp_all only: kj fst_conv snd_conv)
    have lt: "fst (?kvs ! ?j) < length ?new0" by (subst f(1)) (use k in simp)
    have "writes set_nxt ?kvs ?new0 ! fst (?kvs ! ?j)
          = set_nxt (?new0 ! fst (?kvs ! ?j)) (snd (?kvs ! ?j))"
      by (rule writes_nth [OF dist j lt])
    then have "writes set_nxt ?kvs ?new0 ! k = set_nxt (?new0 ! k) (int ?j)"
      by (simp only: f)
    then show "writes set_nxt ?kvs ?new0 ! k = refined hes m nv ! k"
      using k by (simp add: new0 refined_def set_nxt_def)
  qed
  show ?thesis
    unfolding adaptive_link_def
    by (simp only: a1 ebind_Inr tw1 s2 a2 a3 h2 P a4 fin)
qed


subsection \<open>One adaptive pass on a well-formed table\<close>

lemma adaptive_level_ok:
  assumes inv: "invariants hes" and tgt: "targets_in (length vs) hes"
    and len: "length mark = length hes"
    and ec: "case edgecenter of None \<Rightarrow> True
             | Some e \<Rightarrow> length e = length (true_idx (main_marked hes (sym_mark hes mark)))"
  shows "adaptive_level (length hes) nv vs hes mark edgecenter
         = Inr (sym_mark hes mark,
                (case edgecenter of
                   None \<Rightarrow> centers vs hes (main_marked hes (sym_mark hes mark))
                 | Some e \<Rightarrow> e),
                map (relinked hes (sym_mark hes mark)) [0..<length hes],
                refined hes (sym_mark hes mark) nv)"
proof -
  let ?m = "sym_mark hes mark"
  let ?ec = "case edgecenter of None \<Rightarrow> centers vs hes (main_marked hes ?m) | Some e \<Rightarrow> e"
  have cl: "twin_closed hes ?m" by (rule sym_mark_closed [OF inv])
  have lm: "length ?m = length hes" by (simp add: sym_mark_def)
  have e1: "(case edgecenter of
               None \<Rightarrow> edge_centers vs hes (map2 (\<and>) (is_main hes) ?m)
             | Some e \<Rightarrow> Inr e) = Inr ?ec"
    using edge_centers_ok [OF inv tgt, of "main_marked hes ?m"] lm
    by (simp add: main_marked_def [symmetric] split: option.splits)
  have le: "length ?ec = length (true_idx (main_marked hes ?m))"
    using ec by (simp split: option.splits)
  have k2: "2 * length ?ec = length (true_idx ?m)"
    using count_marked [OF inv cl] le by simp
  have r: "adaptive_rows (length ?ec) nv hes ?m
           = Inr (map (new_row hes ?m nv) [0..<length (true_idx ?m)])"
    by (rule adaptive_rows_ok [OF inv cl le])
  show ?thesis
    unfolding adaptive_level_def
    by (simp only: mark_twins_ok [OF inv len] ebind_Inr e1 r k2 adaptive_link_ok [OF inv cl]
        fst_conv snd_conv)
qed

subsection \<open>The refined table\<close>

lemma length_refined [simp]: "length (refined hes m nv) = length hes + length (true_idx m)"
  by (simp add: refined_def)

lemma origin_less:
  assumes "length m = length hes" "k < length hes + length (true_idx m)"
  shows "origin hes m k < length hes"
  using assms marked_nth(1) [OF assms(1), of "k - length hes"] by (auto simp: origin_def)

lemma refined_nth:
  assumes inv: "invariants hes" and len: "length m = length hes"
    and k: "k < length hes + length (true_idx m)"
  shows "nxt (refined hes m nv ! k) = int (next_of hes m k)"
    and "prev (refined hes m nv ! k) = int (prev_of hes m k)"
    and "twin (refined hes m nv ! k) = int (twin_of hes m k)"
    and "primary (refined hes m nv ! k) = primary (hes ! origin hes m k)"
    and "region (refined hes m nv ! k) = region (hes ! origin hes m k)"
    and "target (refined hes m nv ! k)
         = (if k < length hes then target (hes ! k) else new_target hes m nv (k - length hes))"
proof -
  have o: "origin hes m k < length hes" by (rule origin_less [OF len k])
  show "nxt (refined hes m nv ! k) = int (next_of hes m k)"
    using k by (simp add: refined_def)
  show "prev (refined hes m nv ! k) = int (prev_of hes m k)"
    using k prev_joined [OF inv len k] by (simp add: refined_def)
  show "twin (refined hes m nv ! k) = int (twin_of hes m k)"
    using k o inv_twin(3) [OF inv o]
    by (auto simp: refined_def joined_def relinked_def new_row_def twin_of_def origin_def Let_def
        inv_twin(3) [OF inv])
  show "primary (refined hes m nv ! k) = primary (hes ! origin hes m k)"
    using k by (simp add: refined_def joined_def relinked_def new_row_def origin_def Let_def)
  show "region (refined hes m nv ! k) = region (hes ! origin hes m k)"
    using k by (simp add: refined_def joined_def relinked_def new_row_def origin_def Let_def)
  show "target (refined hes m nv ! k)
        = (if k < length hes then target (hes ! k) else new_target hes m nv (k - length hes))"
    using k by (simp add: refined_def joined_def relinked_def new_row_def Let_def)
qed

lemma twin_of_twin_of:
  assumes inv: "invariants hes" and cl: "twin_closed hes m"
    and k: "k < length hes + length (true_idx m)"
  shows "twin_of hes m k < length hes + length (true_idx m)"
    and "twin_of hes m (twin_of hes m k) = k"
    and "origin hes m (twin_of hes m k) = tw hes (origin hes m k)"
proof -
  have len: "length m = length hes" using cl by (simp add: twin_closed_def)
  have all: "twin_of hes m k < length hes + length (true_idx m)
             \<and> twin_of hes m (twin_of hes m k) = k
             \<and> origin hes m (twin_of hes m k) = tw hes (origin hes m k)"
  proof (cases "k < length hes")
    case True
    note t = inv_twin(1,2) [OF inv True]
    note c = twin_closedD(1) [OF cl True]
    show ?thesis
    proof (cases "m ! k")
      case mk: True
      then have mt: "m ! tw hes k" using c by simp
      show ?thesis
        using True mk t marked_rank [OF len t(1) mt]
        by (simp add: twin_of_def origin_def)
    next
      case False
      then have "\<not> m ! tw hes k" using c by simp
      then show ?thesis using True False t by (simp add: twin_of_def origin_def)
    qed
  next
    case False
    then have r: "k - length hes < length (true_idx m)" using k by simp
    note K = marked_nth [OF len r]
    note t = inv_twin(1,2) [OF inv K(1)]
    have mt: "m ! tw hes (true_idx m ! (k - length hes))"
      using twin_closedD(1) [OF cl K(1)] K(2) by simp
    show ?thesis
      using False K t mt k by (simp add: twin_of_def origin_def)
  qed
  then show "twin_of hes m k < length hes + length (true_idx m)"
    and "twin_of hes m (twin_of hes m k) = k"
    and "origin hes m (twin_of hes m k) = tw hes (origin hes m k)"
    by simp_all
qed

lemma invariants_refined:
  assumes inv: "invariants hes" and cl: "twin_closed hes m"
  shows "invariants (refined hes m nv)"
proof -
  let ?R = "refined hes m nv"
  have len: "length m = length hes" using cl by (simp add: twin_closed_def)
  show ?thesis
    unfolding invariants_def
  proof (intro allI impI)
    fix k assume "k < length ?R"
    then have k: "k < length hes + length (true_idx m)" by simp
    note f = refined_nth [OF inv len k, of nv]
    note t = twin_of_twin_of [OF inv cl k]
    note p = next_of_prev_of [OF inv len k]
    note q = prev_of_next_of [OF inv len k]
    have twk: "tw ?R k = twin_of hes m k" by (simp add: tw_def f)
    have pvk: "pv ?R k = prev_of hes m k" by (simp add: pv_def f)
    have nxk: "nx ?R k = next_of hes m k" by (simp add: nx_def f)
    have o: "origin hes m k < length hes" by (rule origin_less [OF len k])
    have pr: "(primary (hes ! tw hes (origin hes m k)) = 1) = (primary (hes ! origin hes m k) \<noteq> 1)"
      by (rule inv_twin(4) [OF inv o])
    show "0 \<le> twin (?R ! k) \<and> twin (?R ! k) < int (length ?R) \<and>
          0 \<le> nxt (?R ! k) \<and> nxt (?R ! k) < int (length ?R) \<and>
          0 \<le> prev (?R ! k) \<and> prev (?R ! k) < int (length ?R) \<and>
          twin (?R ! tw ?R k) = int k \<and>
          nxt (?R ! pv ?R k) = int k \<and>
          prev (?R ! nx ?R k) = int k \<and>
          ((primary (?R ! k) = 1) \<noteq> (primary (?R ! tw ?R k) = 1))"
      unfolding twk pvk nxk
      using t p q pr
      by (simp add: f refined_nth [OF inv len t(1)] refined_nth [OF inv len p(1)]
          refined_nth [OF inv len q(1)])
  qed
qed


subsection \<open>The targets of the new rows\<close>

lemma new_target_bounds:
  assumes inv: "invariants hes" and cl: "twin_closed hes m"
    and r: "r < length (true_idx m)"
  shows "int nv \<le> new_target hes m nv r"
    and "new_target hes m nv r < int (nv + length (true_idx (main_marked hes m)))"
proof -
  let ?flag1 = "select m (is_main hes)"
  let ?idx = "select (main_marked hes m) (map twin hes)"
  let ?c = "length (true_idx (main_marked hes m))"
  have len: "length m = length hes" using cl by (simp add: twin_closed_def)
  have ct: "length (true_idx ?flag1) = ?c" by (rule length_true_idx_flag1 [OF len])
  have cn: "length (true_idx (map Not ?flag1)) = ?c"
    using length_true_idx_Not [of ?flag1] ct count_marked [OF inv cl] by simp
  have r1: "r < length ?flag1" using r by simp
  show "int nv \<le> new_target hes m nv r" by (simp add: new_target_def Let_def)
  show "new_target hes m nv r < int (nv + ?c)"
  proof (cases "?flag1 ! r")
    case True
    then show ?thesis
      using true_idx_rank(1) [OF r1 True] ct by (simp add: new_target_def Let_def)
  next
    case False
    then have "rank (map Not ?flag1) r < ?c"
      using true_idx_rank(1) [of r "map Not ?flag1"] r cn by simp
    then have "argsort ?idx ! rank (map Not ?flag1) r < ?c"
      using argsort_less [of "rank (map Not ?flag1) r" ?idx] by simp
    then show ?thesis using False by (simp add: new_target_def Let_def)
  qed
qed

lemma targets_refined:
  assumes inv: "invariants hes" and cl: "twin_closed hes m" and tgt: "targets_in nv hes"
  shows "targets_in (nv + length (true_idx (main_marked hes m))) (refined hes m nv)"
  unfolding targets_in_def
proof (intro allI impI)
  fix k assume "k < length (refined hes m nv)"
  then have k: "k < length hes + length (true_idx m)" by simp
  have len: "length m = length hes" using cl by (simp add: twin_closed_def)
  note f = refined_nth(6) [OF inv len k, of nv]
  show "0 \<le> target (refined hes m nv ! k)
        \<and> target (refined hes m nv ! k) < int (nv + length (true_idx (main_marked hes m)))"
  proof (cases "k < length hes")
    case True
    then show ?thesis
      using targets_inD [OF tgt True] by (simp add: f)
  next
    case False
    then have r: "k - length hes < length (true_idx m)" using k by simp
    show ?thesis
      using False new_target_bounds [OF inv cl r, of nv] by (simp add: f)
  qed
qed

subsection \<open>Which new vertex a new row points to\<close>










subsection \<open>The uniform pass is the adaptive pass with every half-edge marked\<close>

lemma broadcast_to_length: "broadcast_to n vs = Inr vs' \<Longrightarrow> length vs' = n"
  by (auto simp: broadcast_to_def split: if_splits)

lemma put_mask_all:
  assumes "length vs = length rs"
  shows "put_mask upd (replicate (length rs) True) rs vs = map2 upd rs vs"
  using assms by (auto simp: put_mask_def rank_all intro!: nth_equalityI)

lemma mask_assign_all:
  "mask_assign upd (replicate (length rs) True) rs vs = col_assign upd rs vs"
proof (cases "broadcast_to (length rs) vs")
  case (Inl e)
  then show ?thesis by (simp add: mask_assign_def col_assign_def)
next
  case (Inr vs')
  then show ?thesis
    using broadcast_to_length [OF Inr]
    by (simp add: mask_assign_def col_assign_def put_mask_all)
qed

lemma map2_and_all: "length bs = n \<Longrightarrow> map2 (\<and>) bs (replicate n True) = bs"
  by (auto intro!: nth_equalityI)

lemma uniform_rows_eq:
  assumes "length hes = ne" and ev: "even ne"
  shows "uniform_rows ne nv hes = adaptive_rows (ne div 2) nv hes (replicate ne True)"
proof -
  have e: "2 * (ne div 2) = ne" using ev by simp
  show ?thesis
    unfolding uniform_rows_def adaptive_rows_def Let_def e
    using assms by (simp add: select_all map2_and_all)
qed

lemma uniform_link_eq:
  assumes "length hes = ne"
  shows "uniform_link ne hes h1 = adaptive_link ne ne hes (replicate ne True) h1"
proof -
  have m: "mask_assign upd (replicate ne True) hes vs = col_assign upd hes vs"
    for upd :: "hedge \<Rightarrow> int \<Rightarrow> hedge" and vs
    using mask_assign_all [of upd hes vs] assms by simp
  have l: "\<And>upd vs x. col_assign upd hes vs = Inr x \<Longrightarrow> length x = ne"
    using assms by (auto simp: col_assign_def ebind_def split: sum.splits dest: broadcast_to_length)
  have m2: "mask_assign upd (replicate ne True) x vs = col_assign upd x vs"
    if "length x = ne" for upd :: "hedge \<Rightarrow> int \<Rightarrow> hedge" and vs x
    using mask_assign_all [of upd x vs] that by simp
  show ?thesis
  proof (cases "col_assign set_prev hes (np_range ne (2 * ne))")
    case (Inl e)
    then show ?thesis
      by (simp add: uniform_link_def adaptive_link_def m mult_2)
  next
    case (Inr x)
    have lx: "length x = ne" by (rule l [OF Inr])
    show ?thesis
      using Inr lx by (simp add: uniform_link_def adaptive_link_def m m2 mult_2 select_all)
  qed
qed

lemma uniform_level_ok:
  assumes inv: "invariants hes" and tgt: "targets_in (length vs) hes"
  shows "uniform_level (length hes) nv vs hes
         = Inr (centers vs hes (is_main hes),
                map (relinked hes (replicate (length hes) True)) [0..<length hes],
                refined hes (replicate (length hes) True) nv)"
    and "adaptive_level (length hes) nv vs hes (replicate (length hes) True) None
         = Inr (replicate (length hes) True, centers vs hes (is_main hes),
                map (relinked hes (replicate (length hes) True)) [0..<length hes],
                refined hes (replicate (length hes) True) nv)"
    and "length (true_idx (is_main hes)) = length hes div 2" and "even (length hes)"
proof -
  let ?n = "length hes"
  let ?T = "replicate ?n True"
  have sm: "sym_mark hes ?T = ?T" by (rule sym_mark_all) simp
  have cl: "twin_closed hes ?T" using sym_mark_closed [OF inv, of ?T] by (simp only: sm)
  have mm: "main_marked hes ?T = is_main hes"
    by (simp add: main_marked_def map2_and_all)
  have cnt: "?n = 2 * length (true_idx (is_main hes))"
    using count_marked [OF inv cl] by (simp add: mm)
  show ev: "even ?n" using cnt by presburger
  show c2: "length (true_idx (is_main hes)) = ?n div 2" using cnt by simp
  show a: "adaptive_level ?n nv vs hes ?T None
           = Inr (?T, centers vs hes (is_main hes), map (relinked hes ?T) [0..<?n], refined hes ?T nv)"
    using adaptive_level_ok [OF inv tgt, of ?T None nv] by (simp add: sm mm)
  have ec: "edge_centers vs hes (is_main hes) = Inr (centers vs hes (is_main hes))"
    by (rule edge_centers_ok [OF inv tgt]) simp
  have rows: "uniform_rows ?n nv hes = Inr (map (new_row hes ?T nv) [0..<?n])"
    using uniform_rows_eq [of hes ?n nv] ev adaptive_rows_ok [OF inv cl, of "?n div 2" nv] c2
    by (simp add: mm)
  have link: "uniform_link ?n hes (map (new_row hes ?T nv) [0..<?n])
              = Inr (map (relinked hes ?T) [0..<?n], refined hes ?T nv)"
    using uniform_link_eq [of hes ?n "map (new_row hes ?T nv) [0..<?n]"]
      adaptive_link_ok [OF inv cl, of nv] by simp
  show "uniform_level ?n nv vs hes
        = Inr (centers vs hes (is_main hes), map (relinked hes ?T) [0..<?n], refined hes ?T nv)"
    unfolding uniform_level_def by (simp only: ec rows link ebind_Inr fst_conv snd_conv)
qed


subsection \<open>Passes on a valid domain\<close>

lemma valid_domainD:
  assumes "valid_domain s"
  shows "NE (self s) = length (own_table s)" "NV (self s) = length (vertices (self s))"
    "length (fixed (self s)) = NV (self s)" "0 < GD (self s)"
    "list_all (\<lambda>p. length p = GD (self s)) (vertices (self s))"
    "invariants (own_table s)" "targets_in (length (vertices (self s))) (own_table s)"
  using assms by (auto simp: valid_domain_def own_table_def Let_def)

lemma length_midpoint: "length (midpoint p q) = min (length p) (length q)"
  by (simp add: midpoint_def)

lemma centers_columns:
  assumes inv: "invariants hes" and tgt: "targets_in (length vs) hes"
    and len: "length flag = length hes" and gd: "list_all (\<lambda>p. length p = gd) vs"
  shows "list_all (\<lambda>p. length p = gd) (centers vs hes flag)"
proof -
  have "length (midpoint (vs ! tg hes h) (vs ! tg hes (tw hes h))) = gd"
    if "h \<in> set (true_idx flag)" for h
  proof -
    have h: "h < length hes" using that len by (simp add: set_true_idx)
    have a: "tg hes h < length vs" by (rule targets_inD(1) [OF tgt h])
    have b: "tg hes (tw hes h) < length vs"
      by (rule targets_inD(1) [OF tgt inv_twin(1) [OF inv h]])
    show ?thesis using a b gd by (simp add: length_midpoint list_all_length)
  qed
  then show ?thesis by (simp add: centers_def list_all_iff)
qed

lemma own_table_refined_state [simp]:
  "own_table (refined_state s m ec) = refined (own_table s) m (NV (self s))"
  by (simp add: refined_state_def own_table_def Let_def)

lemma self_refined_state:
  "vertices (self (refined_state s m ec)) = vertices (self s) @ ec"
  "fixed (self (refined_state s m ec)) = fixed (self s) @ replicate (length ec) False"
  "NV (self (refined_state s m ec)) = NV (self s) + length ec"
  "NE (self (refined_state s m ec)) = NE (self s) + length (true_idx m)"
  "GD (self (refined_state s m ec)) = GD (self s)"
  "NS (self (refined_state s m ec)) = NS (self s)"
  by (simp_all add: refined_state_def Let_def)

lemma valid_refined_state:
  assumes v: "valid_domain s" and cl: "twin_closed (own_table s) m"
    and le: "length ec = length (true_idx (main_marked (own_table s) m))"
    and gd: "list_all (\<lambda>p. length p = GD (self s)) ec"
  shows "valid_domain (refined_state s m ec)"
proof -
  note d = valid_domainD [OF v]
  have i: "invariants (refined (own_table s) m (NV (self s)))"
    by (rule invariants_refined [OF d(6) cl])
  have t: "targets_in (NV (self s) + length ec) (refined (own_table s) m (NV (self s)))"
    using targets_refined [OF d(6) cl, of "NV (self s)"] d(7) d(2) le by simp
  show ?thesis
    unfolding valid_domain_def Let_def own_table_def [symmetric]
    using d gd i t by (simp add: self_refined_state)
qed

lemma all_marked_closed:
  assumes v: "valid_domain s"
  shows "twin_closed (own_table s) (all_marked s)"
    and "main_marked (own_table s) (all_marked s) = is_main (own_table s)"
    and "length (true_idx (all_marked s)) = NE (self s)"
proof -
  note d = valid_domainD [OF v]
  have sm: "sym_mark (own_table s) (all_marked s) = all_marked s"
    unfolding all_marked_def by (rule sym_mark_all) (simp add: d(1))
  show "twin_closed (own_table s) (all_marked s)"
    using sym_mark_closed [OF d(6), of "all_marked s"] by (simp only: sm)
  show "main_marked (own_table s) (all_marked s) = is_main (own_table s)"
    by (simp add: main_marked_def all_marked_def map2_and_all d(1))
  show "length (true_idx (all_marked s)) = NE (self s)" by (simp add: all_marked_def)
qed

lemma uniform_inplace_pass_ok:
  assumes v: "valid_domain s"
  shows "uniform_inplace_pass s = Inr (uniform_next s)" and "valid_domain (uniform_next s)"
proof -
  note d = valid_domainD [OF v]
  note u = uniform_level_ok(1) [OF d(6) d(7), of "NV (self s)"] TrueI
    uniform_level_ok(3) [OF d(6) d(7)]
  let ?ec = "centers (vertices (self s)) (own_table s) (is_main (own_table s))"
  have lec: "length ?ec = NE (self s) div 2" using u(3) d(1) by simp
  have n2: "NE (self s) * 2 = NE (self s) + NE (self s)" by simp
  show "uniform_inplace_pass s = Inr (uniform_next s)"
    unfolding uniform_inplace_pass_def Let_def own_table_def [symmetric] d(1)
    using d(4) u(1) lec d(1)
    by (simp add: uniform_next_def refined_state_def Let_def all_marked_def)
  show "valid_domain (uniform_next s)"
    unfolding uniform_next_def
  proof (rule valid_refined_state [OF v all_marked_closed(1) [OF v]])
    show "length ?ec = length (true_idx (main_marked (own_table s) (all_marked s)))"
      by (simp add: all_marked_closed(2) [OF v])
    show "list_all (\<lambda>p. length p = GD (self s)) ?ec"
      by (rule centers_columns [OF d(6) d(7) _ d(5)]) simp
  qed
qed

lemma uniform_inplace_loop_ok:
  assumes v: "valid_domain s"
  shows "uniform_inplace_loop n s = Inr ((uniform_next ^^ n) s)
         \<and> valid_domain ((uniform_next ^^ n) s)"
  using v
proof (induction n arbitrary: s)
  case 0
  then show ?case by simp
next
  case (Suc n)
  note p = uniform_inplace_pass_ok [OF Suc.prems]
  from Suc.IH [OF p(2)] show ?case
    by (simp add: p(1) funpow_swap1)
qed

lemma adaptive_inplace_ok:
  assumes v: "valid_domain s" and len: "length mark = NE (self s)"
    and fit: "ec_fits s (sym_mark (own_table s) mark) edgecenter"
  shows "boundary_adaptive_refine mark None None edgecenter s
         = Inr (refined_state s (sym_mark (own_table s) mark)
                  (adaptive_ec s (sym_mark (own_table s) mark) edgecenter),
                sym_mark (own_table s) mark, None)"
    and "valid_domain (refined_state s (sym_mark (own_table s) mark)
                  (adaptive_ec s (sym_mark (own_table s) mark) edgecenter))"
proof -
  note d = valid_domainD [OF v]
  let ?hes = "own_table s"
  let ?m = "sym_mark ?hes mark"
  let ?ec = "adaptive_ec s ?m edgecenter"
  have cl: "twin_closed ?hes ?m" by (rule sym_mark_closed [OF d(6)])
  have lm: "length ?m = length ?hes" by (simp add: sym_mark_def)
  have len': "length mark = length ?hes" using len d(1) by simp
  have c: "case edgecenter of None \<Rightarrow> True
           | Some e \<Rightarrow> length e = length (true_idx (main_marked ?hes ?m))"
    using fit by (simp add: ec_fits_def split: option.splits)
  have lv: "adaptive_level (length ?hes) (NV (self s)) (vertices (self s)) ?hes mark edgecenter
            = Inr (?m, ?ec, map (relinked ?hes ?m) [0..<length ?hes], refined ?hes ?m (NV (self s)))"
    using adaptive_level_ok [OF d(6) d(7) len' c, of "NV (self s)"]
    by (simp add: adaptive_ec_def)
  have le: "length ?ec = length (true_idx (main_marked ?hes ?m))"
    using fit by (simp add: adaptive_ec_def ec_fits_def split: option.splits)
  have gd: "list_all (\<lambda>p. length p = GD (self s)) ?ec"
  proof (cases edgecenter)
    case None
    then show ?thesis
      using centers_columns [OF d(6) d(7) _ d(5), of "main_marked ?hes ?m"] lm
      by (simp add: adaptive_ec_def)
  next
    case (Some e)
    then show ?thesis using fit by (simp add: adaptive_ec_def ec_fits_def)
  qed
  have k2: "2 * length ?ec = length (true_idx ?m)"
    using count_marked [OF d(6) cl] le by simp
  show "boundary_adaptive_refine mark None None edgecenter s = Inr (refined_state s ?m ?ec, ?m, None)"
    unfolding boundary_adaptive_refine_def Let_def own_table_def [symmetric] d(1)
    using d(4) gd by (simp add: lv refined_state_def Let_def k2 [symmetric] d(1))
  show "valid_domain (refined_state s ?m ?ec)"
    by (rule valid_refined_state [OF v cl le gd])
qed


subsection \<open>The unit square\<close>

lemma own_square: "own_table square = square_halfedge"
  by (simp add: own_table_def square_def square_tables_def init_domain_def)

lemma self_square:
  "self square = \<lparr>vertices = square_vertices, halfedge = 0, fixed = [True, True, True, True],
                   GD = 2, NS = 2, NV = 4, NE = 8\<rparr>"
  by (simp add: square_def init_domain_def square_tables_def square_halfedge_def row_def
      square_vertices_def numeral_eq_Suc)

lemma inv_square: "invariants square_halfedge"
  unfolding invariants_def
  by (simp add: square_halfedge_def row_def tw_def nx_def pv_def All_less_Suc numeral_eq_Suc)

lemma targets_square: "targets_in 4 square_halfedge"
  unfolding targets_in_def
  by (simp add: square_halfedge_def row_def All_less_Suc numeral_eq_Suc)

lemma valid_square: "valid_domain square"
  unfolding valid_domain_def Let_def own_table_def [symmetric]
  using inv_square targets_square
  by (simp add: own_square self_square) (simp add: square_halfedge_def square_vertices_def)





subsection \<open>Several uniform passes\<close>

lemma boundary_uniform_refine_inplace:
  assumes v: "valid_domain s"
  shows "boundary_uniform_refine n None None s = Inr ((uniform_next ^^ n) s, None)"
    and "valid_domain ((uniform_next ^^ n) s)"
  using uniform_inplace_loop_ok [OF v, of n] by (simp_all add: boundary_uniform_refine_def)





subsection \<open>The rows after a uniform pass\<close>










subsection \<open>What a pass leaves as it is\<close>





subsection \<open>Passes on supplied arrays\<close>






subsection \<open>A pass that returns, on a table that satisfies the invariants\<close>










section \<open>DynamicArray: results\<close>

lemma length_np_resize [simp]: "length (np_resize xs n) = n"
  by (simp add: np_resize_def)

lemma init_wf: "init d cap junk = Inr a \<Longrightarrow> wf_array a"
  by (cases d)
     (auto simp: wf_array_def mk_array_def np_empty_def set_prefix_def Let_def
           split: list.splits if_splits option.splits)




text \<open>
  C8, as the code has it. On an array whose backing store has \<open>capacity\<close> rows,
  \<open>increase_size n\<close> returns the view of exactly the index range from the old size \<open>S\<close>
  up to \<open>S + n\<close> and sets the size to \<open>S + n\<close>. The capacity is unchanged when
  \<open>S + n\<close> is strictly below the capacity \<open>C\<close>; when \<open>S + n \<ge> C\<close> (equality included,
  the test of the code is \<open>>=\<close>) it becomes \<open>max (2 * C) (S + n)\<close>, and the backing store
  has that many rows.
\<close>

theorem increase_size_spec:
  assumes "wf_array a"
  shows "fst (increase_size n a) = \<lparr>view_start = size_d a, view_stop = size_d a + n\<rparr>
       \<and> size_d (snd (increase_size n a)) = size_d a + n
       \<and> capacity (snd (increase_size n a)) =
           (if size_d a + n < capacity a then capacity a
            else max (2 * capacity a) (size_d a + n))
       \<and> wf_array (snd (increase_size n a))"
  using assms
  by (auto simp: increase_size_def wf_array_def resize_def slice_view_def Let_def)

theorem increase_size_spec_witness:
  "wf_array (mk_array [3] 3 5 (0::int))
   \<and> fst (increase_size 1 (mk_array [3] 3 5 (0::int))) = \<lparr>view_start = 3, view_stop = 4\<rparr>
   \<and> capacity (snd (increase_size 1 (mk_array [3] 3 5 (0::int)))) = 5"
proof -
  have wf: "wf_array (mk_array [3] 3 5 (0::int))"
    by (simp add: wf_array_def mk_array_def np_empty_def)
  from increase_size_spec [OF wf, of 1] wf show ?thesis
    by (simp add: mk_array_def)
qed

text \<open>
  C8 as stated fails where the append fills the array exactly: size 3, capacity 5
  and \<open>increase_size 2\<close> give \<open>S + n = C\<close>, which does not exceed the capacity, yet the
  capacity becomes 10.
\<close>

theorem increase_size_exact_fit_counterexample:
  "size_d (mk_array [3] 3 5 (0::int)) + 2 \<le> capacity (mk_array [3] 3 5 (0::int))
   \<and> capacity (snd (increase_size 2 (mk_array [3] 3 5 (0::int)))) = 10
   \<and> capacity (snd (increase_size 2 (mk_array [3] 3 5 (0::int))))
       \<noteq> capacity (mk_array [3] 3 5 (0::int))"
  by (simp add: increase_size_def mk_array_def resize_def Let_def)



section \<open>Refinement of the boundary: results\<close>





text \<open>
  C3. On a valid domain, \<open>boundary_adaptive_refine\<close> in place with every half-edge
  marked and no \<open>edgecenter\<close> ends in the same state as \<open>boundary_uniform_refine\<close> with
  one level: the same vertex array, table, flags and counts (and the same store). The
  marking is left as it was.
\<close>

theorem adaptive_all_marked_is_uniform:
  assumes "valid_domain s"
  shows "\<exists>s'. boundary_uniform_refine 1 None None s = Inr (s', None)
            \<and> boundary_adaptive_refine (replicate (NE (self s)) True) None None None s
                = Inr (s', replicate (NE (self s)) True, None)"
proof -
  note d = valid_domainD [OF assms]
  let ?T = "replicate (NE (self s)) True"
  have sm: "sym_mark (own_table s) ?T = ?T"
    by (rule sym_mark_all) (simp add: d(1))
  have f: "ec_fits s (sym_mark (own_table s) ?T) None" by (simp add: ec_fits_def)
  have e: "adaptive_ec s ?T None
           = centers (vertices (self s)) (own_table s) (is_main (own_table s))"
    using all_marked_closed(2) [OF assms] by (simp add: adaptive_ec_def all_marked_def)
  have "boundary_adaptive_refine ?T None None None s = Inr (uniform_next s, ?T, None)"
    using adaptive_inplace_ok(1) [OF assms _ f] e
    by (simp add: sm uniform_next_def all_marked_def)
  moreover have "boundary_uniform_refine 1 None None s = Inr (uniform_next s, None)"
    using boundary_uniform_refine_inplace(1) [OF assms, of 1] by simp
  ultimately show ?thesis by blast
qed

theorem adaptive_all_marked_is_uniform_witness:
  "valid_domain square
   \<and> (\<exists>s'. boundary_uniform_refine 1 None None square = Inr (s', None)
          \<and> boundary_adaptive_refine (replicate 8 True) None None None square
              = Inr (s', replicate 8 True, None))"
proof -
  from adaptive_all_marked_is_uniform [OF valid_square] valid_square
  show ?thesis by (simp add: self_square)
qed











section \<open>is_intersect: results\<close>

lemma line_517_raises: "line_517 flag t u = Inl TypeError"
  by (simp add: line_517_def)

lemma is_intersect_never_returns: "is_intersect p0 p1 v0 v1 returnin \<noteq> Inr x"
  by (cases "intersect_params p0 p1 v0 v1")
     (auto simp: is_intersect_def line_517_raises)

lemma true_idx_single: "true_idx [True] = [0]" "rank [True] 0 = 0"
  by (simp_all add: true_idx_def rank_def)

text \<open>
  C4. The crossing pair \<open>p0 = (0,0)\<close>, \<open>p1 = (1,1)\<close>, \<open>v0 = (0,1)\<close>, \<open>v1 = (1,0)\<close> and the
  parallel pair \<open>p0 = (0,0)\<close>, \<open>p1 = (1,0)\<close>, \<open>v0 = (0,1)\<close>, \<open>v1 = (1,1)\<close>: on both
  \<open>is_intersect\<close> raises \<open>TypeError\<close> at line 517 and reports nothing. For the crossing
  pair the lines before have computed \<open>t = -1/2\<close> and \<open>u = 1/2\<close>.
\<close>

theorem is_intersect_raises:
  "is_intersect [(0, 0)] [(1, 1)] [(0, 1)] [(1, 0)] returnin = Inl TypeError
   \<and> is_intersect [(0, 0)] [(1, 0)] [(0, 1)] [(1, 1)] returnin = Inl TypeError
   \<and> intersect_params [(0, 0)] [(1, 1)] [(0, 1)] [(1, 0)] = Inr ([True], [- 1 / 2], [1 / 2], [(1, 1)])
   \<and> intersect_params [(0, 0)] [(1, 0)] [(0, 1)] [(1, 1)] = Inr ([False], [0], [0], [(1, 0)])"
proof -
  have a: "intersect_params [(0, 0)] [(1, 1)] [(0, 1)] [(1, 0)]
           = Inr ([True], [- 1 / 2], [1 / 2], [(1, 1)])"
    by (simp add: intersect_params_def np_binop_def sub2_def cross2_def mask_select_def
        mask_assign_def broadcast_to_def select_def put_mask_def true_idx_def rank_def)
  have b: "intersect_params [(0, 0)] [(1, 0)] [(0, 1)] [(1, 1)] = Inr ([False], [0], [0], [(1, 0)])"
    by (simp add: intersect_params_def np_binop_def sub2_def cross2_def mask_select_def
        mask_assign_def broadcast_to_def select_def put_mask_def true_idx_def rank_def)
  show ?thesis
    by (simp add: a b is_intersect_def line_517_raises)
qed

end
